theory Spec2Isabelle
  imports Main "HOL-Library.FSet"
begin

section \<open>The data model of \<open>utils.py\<close>\<close>

text \<open>
  Python sets of integers are finite sets of unbounded integers (\<open>int fset\<close>); the list of
  cells is a list of such sets, indexed by the flattened index \<open>row * side + col\<close>.
  Flattened indices, \<open>len\<close> results and the elements of a \<open>range\<close> that starts at 0 are never
  negative and are kept as \<open>nat\<close>; the block parameters \<open>m\<close>, \<open>n\<close> and the cell values are
  Python integers (\<open>int\<close>). The dictionary \<open>subsets\<close> is an association list in insertion
  order (the order Python iterates a dict in); its keys are distinct by construction.
  Every cell of a grid the constructor or the solver builds is its own set object (fresh
  \<open>set(...)\<close>, \<open>.copy()\<close>), so there the in-place \<open>-=\<close> of one cell is an update of
  that list position alone, and \<open>SudokuGrid\<close> below records the cells by value. A caller
  of \<open>set_values\<close> can store one set object in several cells; the section on set
  objects models the grid with an explicit store of objects for that case.
\<close>

datatype error = AssertionError | TypeError | IndexError | ZeroDivisionError

record SudokuGrid =
  dimensions :: "nat \<times> nat"
  grid_values :: "int list"
  grid :: "int fset list"
  areas :: "nat list list"
  subsets :: "(nat \<times> int fset) list"

subsection \<open>Construction\<close>

text \<open>\<open>range(k)\<close>: empty when \<open>k \<le> 0\<close>.\<close>

definition py_range :: "int \<Rightarrow> nat list" where
  "py_range k = [0..<nat k]"

text \<open>The digits of \<open>format(i, 'b')\<close> for \<open>i \<ge> 0\<close>: no leading zeros, \<open>'0'\<close> for 0.\<close>

fun bin_digits :: "nat \<Rightarrow> string" where
  "bin_digits i =
     (if i < 2 then [if i = 0 then CHR ''0'' else CHR ''1'']
      else bin_digits (i div 2) @ [if i mod 2 = 0 then CHR ''0'' else CHR ''1''])"

declare bin_digits.simps [simp del]

text \<open>\<open>'{:9b}'.format(i)\<close>: right-aligned in a field of at least 9 characters, padded
  with spaces; a longer numeral is not cut.\<close>

definition format_9b :: "nat \<Rightarrow> string" where
  "format_9b i = (let b = bin_digits i in replicate (9 - length b) CHR '' '' @ b)"

definition get_subset :: "nat \<Rightarrow> int fset" where
  "get_subset i =
     (let bits = format_9b i
      in fset_of_list [int k + 1. k \<leftarrow> [0..<9], bits ! k = CHR ''1''])"

definition row_areas :: "int \<Rightarrow> nat list list" where
  "row_areas tot = [[nat tot * i + j. j \<leftarrow> py_range tot]. i \<leftarrow> py_range tot]"

definition col_areas :: "int \<Rightarrow> nat list list" where
  "col_areas tot = [[nat tot * i + j. i \<leftarrow> py_range tot]. j \<leftarrow> py_range tot]"

text \<open>The \<open>else\<close> branch of the constructor. The loops over \<open>range(m)\<close> and \<open>range(n)\<close> run
  only when both are positive, so the arithmetic stays in the naturals.\<close>

definition default_regions :: "int \<Rightarrow> int \<Rightarrow> nat list list" where
  "default_regions m n =
     [[nat (m * n) * nat m * i + nat n * j + nat (m * n) * r + s.
         r \<leftarrow> py_range m, s \<leftarrow> py_range n].
       i \<leftarrow> py_range n, j \<leftarrow> py_range m]"

text \<open>The \<open>if segments:\<close> branch: three assertions, then the flattened indices. The last
  assertion leaves only indices in \<open>0 .. tot\<^sup>2 - 1\<close> (\<open>tot\<close> is the source's \<open>total = m * n\<close>).\<close>

definition segment_regions :: "int \<Rightarrow> (int \<times> int) list list \<Rightarrow> error + nat list list" where
  "segment_regions tot segments =
     (if int (length segments) \<noteq> tot then Inl AssertionError
      else if \<not> list_all (\<lambda>s. int (length s) = tot) segments then Inl AssertionError
      else
        let idx = map (map (\<lambda>x. tot * fst x + snd x)) segments
        in if sort (concat idx) \<noteq> [0..tot ^ 2 - 1] then Inl AssertionError
           else Inr (map (map nat) idx))"

text \<open>\<open>SudokuGrid.__init__\<close>. A segment list that is \<open>None\<close> or empty is falsy. With a
  negative \<open>m * n\<close>, \<open>2 ** (m * n)\<close> is a float and \<open>range\<close> raises \<open>TypeError\<close>.\<close>

definition SudokuGrid_init ::
  "int \<Rightarrow> int \<Rightarrow> (int \<times> int) list list option \<Rightarrow> error + SudokuGrid" where
  "SudokuGrid_init m n segments =
     (let tot = m * n;
          vals = [1..tot];
          cells = replicate (nat (tot ^ 2)) (fset_of_list vals);
          regions = (case segments of
                       None \<Rightarrow> Inr (default_regions m n)
                     | Some segs \<Rightarrow> if segs = [] then Inr (default_regions m n)
                                   else segment_regions tot segs)
      in case regions of
           Inl e \<Rightarrow> Inl e
         | Inr rs \<Rightarrow>
             if tot < 0 then Inl TypeError
             else Inr \<lparr>dimensions = (nat tot, nat tot),
                       grid_values = vals,
                       grid = cells,
                       areas = row_areas tot @ col_areas tot @ rs,
                       subsets = [(i, get_subset i). i \<leftarrow> [1..<2 ^ nat tot]]\<rparr>)"

subsection \<open>Queries and updates\<close>

definition defined :: "SudokuGrid \<Rightarrow> bool list" where
  "defined g = [fcard x = 1. x \<leftarrow> grid g]"

definition validate_area :: "SudokuGrid \<Rightarrow> nat list \<Rightarrow> bool" where
  "validate_area g area =
     (let vals = ffUnion (fset_of_list [grid g ! i. i \<leftarrow> area]);
          exact_vals = [fthe_elem (grid g ! i). i \<leftarrow> area, defined g ! i]
      in vals = fset_of_list (grid_values g)
         \<and> length exact_vals = fcard (fset_of_list exact_vals))"

definition is_valid :: "SudokuGrid \<Rightarrow> bool" where
  "is_valid g = list_all (validate_area g) (areas g)"

definition set_values :: "SudokuGrid \<Rightarrow> nat \<Rightarrow> nat \<Rightarrow> int fset \<Rightarrow> error + SudokuGrid" where
  "set_values g row col vs =
     (let k = row * fst (dimensions g) + col
      in if k < length (grid g) then Inr (g\<lparr>grid := (grid g)[k := vs]\<rparr>)
         else Inl IndexError)"

subsection \<open>Reduction\<close>

text \<open>The body of the inner loop of \<open>reduce_options\<close> for one area and one table entry,
  on cells that are separate set objects: \<open>self.grid[j] -= test_set\<close> then changes cell
  \<open>j\<close> only. \<open>st_reduce_subset\<close> below is the same loop on a store of objects, where a
  set shared by two cells shrinks in both.\<close>

definition reduce_subset :: "nat list \<Rightarrow> int fset \<Rightarrow> SudokuGrid \<Rightarrow> SudokuGrid" where
  "reduce_subset area test_set g =
     (let test_idx = [i \<leftarrow> area. \<not> (grid g ! i |\<subseteq>| test_set)]
      in if int (length test_idx) = int (fst (dimensions g)) - int (fcard test_set)
         then fold (\<lambda>j g'. g'\<lparr>grid := (grid g')[j := grid g' ! j |-| test_set]\<rparr>) test_idx g
         else g)"

definition reduce_area :: "nat list \<Rightarrow> SudokuGrid \<Rightarrow> SudokuGrid" where
  "reduce_area area g = fold (\<lambda>(idx, test_set). reduce_subset area test_set) (subsets g) g"

definition reduce_options :: "SudokuGrid \<Rightarrow> SudokuGrid" where
  "reduce_options g = fold reduce_area (areas g) g"

definition options_sum :: "SudokuGrid \<Rightarrow> nat" where
  "options_sum g = sum_list [fcard x. x \<leftarrow> grid g]"


text \<open>\<open>narrows g g'\<close>: \<open>g'\<close> is \<open>g\<close> with some candidates removed and nothing else changed.\<close>

definition narrows :: "SudokuGrid \<Rightarrow> SudokuGrid \<Rightarrow> bool" where
  "narrows g g' \<longleftrightarrow> g' = g\<lparr>grid := grid g'\<rparr> \<and> list_all2 (|\<subseteq>|) (grid g') (grid g)"

lemma narrows_refl: "narrows g g"
  by (simp add: narrows_def list_all2_refl)

lemma narrows_trans: "narrows g g' \<Longrightarrow> narrows g' g'' \<Longrightarrow> narrows g g''"
proof -
  assume a: "narrows g g'" and b: "narrows g' g''"
  have a2: "list_all2 (|\<subseteq>|) (grid g') (grid g)" using a by (simp add: narrows_def)
  have b2: "list_all2 (|\<subseteq>|) (grid g'') (grid g')" using b by (simp add: narrows_def)
  have len: "length (grid g'') = length (grid g')" "length (grid g') = length (grid g)"
    using a2 b2 by (simp_all add: list_all2_lengthD)
  have "list_all2 (|\<subseteq>|) (grid g'') (grid g)"
    unfolding list_all2_conv_all_nth
  proof (intro conjI allI impI)
    show "length (grid g'') = length (grid g)" using len by simp
  next
    fix i assume i: "i < length (grid g'')"
    have "grid g'' ! i |\<subseteq>| grid g' ! i" using b2 i by (simp add: list_all2_conv_all_nth)
    moreover have "grid g' ! i |\<subseteq>| grid g ! i"
      using a2 i len by (simp add: list_all2_conv_all_nth)
    ultimately show "grid g'' ! i |\<subseteq>| grid g ! i" by (rule order_trans)
  qed
  moreover have "g'' = g\<lparr>grid := grid g''\<rparr>"
  proof -
    have "g'' = g'\<lparr>grid := grid g''\<rparr>" using b by (simp add: narrows_def)
    also have "g' = g\<lparr>grid := grid g'\<rparr>" using a by (simp add: narrows_def)
    finally show ?thesis by simp
  qed
  ultimately show ?thesis by (simp add: narrows_def)
qed

lemma narrows_fold:
  "(\<And>x h. x \<in> set xs \<Longrightarrow> narrows h (f x h)) \<Longrightarrow> narrows g (fold f xs g)"
proof (induction xs arbitrary: g)
  case Nil
  show ?case by (simp add: narrows_refl)
next
  case (Cons x xs)
  have "narrows g (f x g)" using Cons.prems by simp
  moreover have "narrows (f x g) (fold f xs (f x g))"
    using Cons.IH Cons.prems by simp
  ultimately have "narrows g (fold f xs (f x g))" by (rule narrows_trans)
  then show ?case by simp
qed

lemma narrows_remove: "narrows g (g\<lparr>grid := (grid g)[j := grid g ! j |-| S]\<rparr>)"
proof -
  have "list_all2 (|\<subseteq>|) ((grid g)[j := grid g ! j |-| S]) (grid g)"
    unfolding list_all2_conv_all_nth
  proof (intro conjI allI impI)
    show "length ((grid g)[j := grid g ! j |-| S]) = length (grid g)" by simp
  next
    fix i assume "i < length ((grid g)[j := grid g ! j |-| S])"
    then show "(grid g)[j := grid g ! j |-| S] ! i |\<subseteq>| grid g ! i"
      by (cases "i = j") auto
  qed
  then show ?thesis by (simp add: narrows_def)
qed

lemma narrows_reduce_subset: "narrows g (reduce_subset area S g)"
proof -
  have "narrows g (fold (\<lambda>j g'. g'\<lparr>grid := (grid g')[j := grid g' ! j |-| S]\<rparr>) js g)" for js
    by (rule narrows_fold) (rule narrows_remove)
  then show ?thesis
    unfolding reduce_subset_def Let_def by (simp add: narrows_refl)
qed

lemma narrows_reduce_area: "narrows g (reduce_area area g)"
  unfolding reduce_area_def
  by (rule narrows_fold) (simp add: narrows_reduce_subset split: prod.split)

lemma narrows_reduce_options: "narrows g (reduce_options g)"
  unfolding reduce_options_def
  by (rule narrows_fold) (simp add: narrows_reduce_area)

lemma narrows_fields:
  assumes "narrows g g'"
  shows "dimensions g' = dimensions g" "grid_values g' = grid_values g"
    "areas g' = areas g" "subsets g' = subsets g" "length (grid g') = length (grid g)"
proof -
  have e: "g' = g\<lparr>grid := grid g'\<rparr>" using assms by (simp add: narrows_def)
  show "dimensions g' = dimensions g" by (subst e) simp
  show "grid_values g' = grid_values g" by (subst e) simp
  show "areas g' = areas g" by (subst e) simp
  show "subsets g' = subsets g" by (subst e) simp
  have "list_all2 (|\<subseteq>|) (grid g') (grid g)" using assms by (simp add: narrows_def)
  then show "length (grid g') = length (grid g)" by (rule list_all2_lengthD)
qed

lemma narrows_nth: "narrows g g' \<Longrightarrow> i < length (grid g) \<Longrightarrow> grid g' ! i |\<subseteq>| grid g ! i"
  by (simp add: narrows_def list_all2_conv_all_nth)

lemma subset_sum_le:
  "list_all2 (|\<subseteq>|) xs ys \<Longrightarrow> sum_list (map fcard xs) \<le> sum_list (map fcard ys)"
  by (induction rule: list_all2_induct) (auto simp: fcard_mono add_mono)

lemma subset_sum_eq:
  "list_all2 (|\<subseteq>|) xs ys \<Longrightarrow> sum_list (map fcard xs) = sum_list (map fcard ys) \<Longrightarrow> xs = ys"
proof (induction rule: list_all2_induct)
  case Nil
  show ?case by simp
next
  case (Cons x xs y ys)
  have a: "fcard x \<le> fcard y" using Cons.hyps(1) by (simp add: fcard_mono)
  have b: "sum_list (map fcard xs) \<le> sum_list (map fcard ys)"
    using Cons.hyps(2) by (rule subset_sum_le)
  have c: "fcard x = fcard y" "sum_list (map fcard xs) = sum_list (map fcard ys)"
    using a b Cons.prems by simp_all
  have "x = y" using Cons.hyps(1) c(1) by (simp add: fcard_seteq)
  then show ?case using Cons.IH c(2) by simp
qed

lemma narrows_options_le: "narrows g g' \<Longrightarrow> options_sum g' \<le> options_sum g"
  by (simp add: narrows_def options_sum_def subset_sum_le)

lemma narrows_options_eq: "narrows g g' \<Longrightarrow> options_sum g' = options_sum g \<Longrightarrow> g' = g"
proof -
  assume a: "narrows g g'" and b: "options_sum g' = options_sum g"
  have "grid g' = grid g" using a b by (simp add: narrows_def options_sum_def subset_sum_eq)
  moreover have "g' = g\<lparr>grid := grid g'\<rparr>" using a by (simp add: narrows_def)
  ultimately show ?thesis by simp
qed

text \<open>\<open>simplify\<close>: the loop carries the variable \<open>options\<close>; the second component of the
  result counts the calls of \<open>reduce_options\<close> (the passes), which the source does not store.\<close>

function simplify_loop :: "nat \<Rightarrow> SudokuGrid \<Rightarrow> SudokuGrid \<times> nat" where
  "simplify_loop options g =
     (let g' = reduce_options g;
          new_options = options_sum g'
      in if new_options = options then (g', 1)
         else (case simplify_loop new_options g' of (h, passes) \<Rightarrow> (h, passes + 1)))"
  by pat_completeness auto
termination
proof (relation "measure (\<lambda>(options, g). 2 * options_sum g + (if options = options_sum g then 0 else 1))")
  show "wf (measure (\<lambda>(options, g). 2 * options_sum g + (if options = options_sum g then 0 else 1)))"
    by simp
next
  fix options :: nat and g x xa
  assume x: "x = reduce_options g" and xa: "xa = options_sum x" and ne: "xa \<noteq> options"
  have le: "options_sum x \<le> options_sum g"
    using narrows_reduce_options[of g] x by (simp add: narrows_options_le)
  show "((xa, x), options, g)
        \<in> measure (\<lambda>(options, g). 2 * options_sum g + (if options = options_sum g then 0 else 1))"
    using le xa ne by auto
qed

declare simplify_loop.simps [simp del]

definition simplify_run :: "SudokuGrid \<Rightarrow> SudokuGrid \<times> nat" where
  "simplify_run g = simplify_loop (options_sum g) g"

definition simplify :: "SudokuGrid \<Rightarrow> SudokuGrid" where
  "simplify g = fst (simplify_run g)"

definition simplify_passes :: "SudokuGrid \<Rightarrow> nat" where
  "simplify_passes g = snd (simplify_run g)"

subsection \<open>\<open>SudokuSolver.solve\<close>\<close>

text \<open>The solver owns one grid; \<open>solve\<close> is modelled on that grid. The copy loop of line
  118-119 writes cell \<open>i\<close> of the new grid for every index of the live grid and raises
  \<open>IndexError\<close> at the first index the new grid does not have.\<close>

definition copy_cells :: "int fset list \<Rightarrow> SudokuGrid \<Rightarrow> error + SudokuGrid" where
  "copy_cells src new_grid =
     fold (\<lambda>i r. case r of
                    Inl e \<Rightarrow> Inl e
                  | Inr h \<Rightarrow> if i < length (grid h) then Inr (h\<lparr>grid := (grid h)[i := src ! i]\<rparr>)
                             else Inl IndexError)
          [0..<length src] (Inr new_grid)"

text \<open>Lines 117-120: the grid a trial runs on, before \<open>simplify\<close>. \<open>SudokuGrid()\<close> takes
  the default arguments \<open>m = 3\<close>, \<open>n = 3\<close>, \<open>segments = None\<close>.\<close>

definition trial_grid :: "SudokuGrid \<Rightarrow> nat \<Rightarrow> nat \<Rightarrow> int \<Rightarrow> error + SudokuGrid" where
  "trial_grid g row col v =
     (case SudokuGrid_init 3 3 None of
        Inl e \<Rightarrow> Inl e
      | Inr new_grid \<Rightarrow>
          (case copy_cells (grid g) new_grid of
             Inl e \<Rightarrow> Inl e
           | Inr h \<Rightarrow> set_values h row col {|v|}))"

text \<open>Lines 115-123. The trials of one cell do not depend on each other, so the order in
  which Python iterates the candidate set does not matter; the model takes the sorted one.\<close>

definition good_set :: "SudokuGrid \<Rightarrow> nat \<Rightarrow> nat \<Rightarrow> nat \<Rightarrow> error + int fset" where
  "good_set g idx row col =
     fold (\<lambda>v acc. case acc of
                      Inl e \<Rightarrow> Inl e
                    | Inr gs \<Rightarrow>
                        (case trial_grid g row col v of
                           Inl e \<Rightarrow> Inl e
                         | Inr new_grid \<Rightarrow>
                             Inr (if is_valid (simplify new_grid) then gs |\<union>| {|v|} else gs)))
          (sorted_list_of_fset (grid g ! idx)) (Inr {||})"

text \<open>Lines 113-125: the body of the \<open>for idx\<close> loop.\<close>

definition resolve_cell :: "nat \<Rightarrow> SudokuGrid \<Rightarrow> error + SudokuGrid" where
  "resolve_cell idx g =
     (if defined g ! idx = False then
        if fst (dimensions g) = 0 then Inl ZeroDivisionError
        else
          let row = idx div fst (dimensions g);
              col = idx mod fst (dimensions g)
          in case good_set g idx row col of
               Inl e \<Rightarrow> Inl e
             | Inr gs \<Rightarrow>
                 (case set_values g row col gs of
                    Inl e \<Rightarrow> Inl e
                  | Inr g' \<Rightarrow> Inr (simplify g'))
      else Inr g)"

definition resolve_pass :: "SudokuGrid \<Rightarrow> error + SudokuGrid" where
  "resolve_pass g =
     fold (\<lambda>idx r. case r of Inl e \<Rightarrow> Inl e | Inr h \<Rightarrow> resolve_cell idx h)
          [0..<length (grid g)] (Inr g)"

text \<open>The \<open>while\<close> loop of \<open>solve\<close> may run forever: \<open>None\<close> is "does not return",
  \<open>Some (Inl e)\<close> an exception, \<open>Some (Inr g)\<close> the grid at the normal return.\<close>

partial_function (option) solve_loop :: "SudokuGrid \<Rightarrow> (error + SudokuGrid) option" where
  "solve_loop g =
     (if list_all (\<lambda>b. b) (defined g) then Some (Inr g)
      else case resolve_pass g of
             Inl e \<Rightarrow> Some (Inl e)
           | Inr g' \<Rightarrow> solve_loop g')"

definition solve :: "SudokuGrid \<Rightarrow> (error + SudokuGrid) option" where
  "solve g = solve_loop (simplify g)"

section \<open>Set objects and sharing\<close>

text \<open>
  \<open>set_values\<close> stores the caller's set object (line 72) and \<open>self.grid[j] -= test_set\<close>
  (line 81) changes the object in place. A \<open>GridStore\<close> keeps the set objects in a store
  (\<open>objects\<close>, indexed by object identity); a cell (\<open>cell_refs\<close>) and an entry of the subset
  table (\<open>table\<close>) are references into it. \<open>view\<close> reads the grid by value.
  The constructor creates a new object for every cell (line 18) and for every table entry
  (line 32); \<open>new_set\<close> is the caller creating a set, \<open>st_set_values\<close> stores a reference
  in a cell, and the reduction updates the object a cell refers to.
\<close>

record GridStore =
  st_dimensions :: "nat \<times> nat"
  st_values :: "int list"
  objects :: "int fset list"
  cell_refs :: "nat list"
  st_areas :: "nat list list"
  table :: "(nat \<times> nat) list"

definition view :: "GridStore \<Rightarrow> SudokuGrid" where
  "view s = \<lparr>dimensions = st_dimensions s, grid_values = st_values s,
             grid = map (\<lambda>r. objects s ! r) (cell_refs s),
             areas = st_areas s,
             subsets = map (\<lambda>(i, r). (i, objects s ! r)) (table s)\<rparr>"

definition GridStore_init ::
  "int \<Rightarrow> int \<Rightarrow> (int \<times> int) list list option \<Rightarrow> error + GridStore" where
  "GridStore_init m n segments =
     (case SudokuGrid_init m n segments of
        Inl e \<Rightarrow> Inl e
      | Inr g \<Rightarrow>
          Inr \<lparr>st_dimensions = dimensions g, st_values = grid_values g,
               objects = grid g @ map snd (subsets g),
               cell_refs = [0..<length (grid g)],
               st_areas = areas g,
               table = zip (map fst (subsets g))
                           [length (grid g)..<length (grid g) + length (subsets g)]\<rparr>)"

definition new_set :: "int fset \<Rightarrow> GridStore \<Rightarrow> GridStore \<times> nat" where
  "new_set vs s = (s\<lparr>objects := objects s @ [vs]\<rparr>, length (objects s))"

definition st_set_values :: "GridStore \<Rightarrow> nat \<Rightarrow> nat \<Rightarrow> nat \<Rightarrow> error + GridStore" where
  "st_set_values s row col r =
     (let k = row * fst (st_dimensions s) + col
      in if k < length (cell_refs s) then Inr (s\<lparr>cell_refs := (cell_refs s)[k := r]\<rparr>)
         else Inl IndexError)"

definition st_reduce_subset :: "nat list \<Rightarrow> nat \<Rightarrow> GridStore \<Rightarrow> GridStore" where
  "st_reduce_subset area t s =
     (let test_idx = [i \<leftarrow> area. \<not> (objects s ! (cell_refs s ! i) |\<subseteq>| objects s ! t)]
      in if int (length test_idx) = int (fst (st_dimensions s)) - int (fcard (objects s ! t))
         then fold (\<lambda>j s'. s'\<lparr>objects := (objects s')[cell_refs s' ! j :=
                                   objects s' ! (cell_refs s' ! j) |-| objects s' ! t]\<rparr>) test_idx s
         else s)"

definition st_reduce_area :: "nat list \<Rightarrow> GridStore \<Rightarrow> GridStore" where
  "st_reduce_area area s = fold (\<lambda>(idx, t). st_reduce_subset area t) (table s) s"

definition st_reduce_options :: "GridStore \<Rightarrow> GridStore" where
  "st_reduce_options s = fold st_reduce_area (st_areas s) s"

text \<open>The cells are separate when no two of them refer to one object (and every
  reference is to an object of the store).\<close>

definition separate :: "GridStore \<Rightarrow> bool" where
  "separate s \<longleftrightarrow> distinct (cell_refs s) \<and> list_all (\<lambda>r. r < length (objects s)) (cell_refs s)"

section \<open>Well-formed grids\<close>

text \<open>A family of index groups partitions a grid of side \<open>s\<close>: \<open>s\<close> groups of \<open>s\<close>
  distinct indices each, every index of \<open>0 .. s\<^sup>2 - 1\<close> in exactly one position of
  the family.\<close>

definition partitions_grid :: "nat \<Rightarrow> nat list list \<Rightarrow> bool" where
  "partitions_grid s fam \<longleftrightarrow>
     length fam = s \<and> list_all (\<lambda>a. length a = s \<and> distinct a) fam
     \<and> distinct (concat fam) \<and> set (concat fam) = {0..<s * s}"

text \<open>What the constructor establishes and no method changes: the values are
  \<open>1 .. side\<close>, there are \<open>side\<^sup>2\<close> cells, the subset table is the one of
  \<open>__init__\<close>, every area holds \<open>side\<close> distinct indices of existing cells (so
  \<open>self.grid[i]\<close> never raises for an index of an area), and every cell lies in an area.\<close>

definition well_formed :: "SudokuGrid \<Rightarrow> bool" where
  "well_formed g \<longleftrightarrow>
     (let s = fst (dimensions g)
      in grid_values g = [1..int s]
         \<and> length (grid g) = s * s
         \<and> subsets g = [(i, get_subset i). i \<leftarrow> [1..<2 ^ s]]
         \<and> list_all (\<lambda>a. length a = s \<and> distinct a \<and> list_all (\<lambda>i. i < length (grid g)) a)
              (areas g)
         \<and> list_all (\<lambda>c. list_ex (\<lambda>a. c \<in> set a) (areas g)) [0..<length (grid g)])"


section \<open>The validity conditions in the words of the specification\<close>

text \<open>The conditions an area can violate, stated on the cells rather than taken from
  \<open>validate_area\<close>: a value of \<open>1 .. side\<close> that no cell of the area has as a candidate;
  two different cells of the area that are singletons with the same value; a cell with a
  candidate outside \<open>1 .. side\<close>. \<open>candidates_in_range\<close> is invariant I2.\<close>

definition area_lacks_value :: "SudokuGrid \<Rightarrow> nat list \<Rightarrow> bool" where
  "area_lacks_value g a \<longleftrightarrow>
     list_ex (\<lambda>v. list_all (\<lambda>i. v |\<notin>| grid g ! i) a) [1..int (fst (dimensions g))]"

definition area_repeats_single :: "SudokuGrid \<Rightarrow> nat list \<Rightarrow> bool" where
  "area_repeats_single g a \<longleftrightarrow>
     list_ex (\<lambda>i. list_ex (\<lambda>j. i \<noteq> j \<and> fcard (grid g ! i) = 1 \<and> fcard (grid g ! j) = 1
                               \<and> grid g ! i = grid g ! j) a) a"

definition area_out_of_range :: "SudokuGrid \<Rightarrow> nat list \<Rightarrow> bool" where
  "area_out_of_range g a \<longleftrightarrow>
     list_ex (\<lambda>i. \<not> grid g ! i |\<subseteq>| fset_of_list [1..int (fst (dimensions g))]) a"

definition candidates_in_range :: "SudokuGrid \<Rightarrow> bool" where
  "candidates_in_range g \<longleftrightarrow>
     list_all (\<lambda>x. x |\<subseteq>| fset_of_list [1..int (fst (dimensions g))]) (grid g)"

section \<open>Completions of a grid\<close>

text \<open>A complete assignment gives one value to every cell, here as the list of the
  values in cell order. It fits a grid when each value is a candidate of its cell; it is a
  completion when, in addition, every value of \<open>1 .. side\<close> occurs exactly once among the
  cells of each area.\<close>

definition fits :: "SudokuGrid \<Rightarrow> int list \<Rightarrow> bool" where
  "fits g sol \<longleftrightarrow> length sol = length (grid g) \<and> list_all2 (\<lambda>v cell. v |\<in>| cell) sol (grid g)"

definition completion :: "SudokuGrid \<Rightarrow> int list \<Rightarrow> bool" where
  "completion g sol \<longleftrightarrow>
     fits g sol
     \<and> list_all (\<lambda>a. list_all (\<lambda>v. length [i \<leftarrow> a. sol ! i = v] = 1)
                        [1..int (fst (dimensions g))]) (areas g)"

section \<open>The 4 x 4 scenario\<close>

text \<open>\<open>SudokuGrid(2, 2)\<close> followed by \<open>set_values(0, 0, {1})\<close>: the board that is blank
  except for a 1 at (0,0).\<close>

definition board_4x4 :: "error + SudokuGrid" where
  "board_4x4 = (case SudokuGrid_init 2 2 None of
                  Inl e \<Rightarrow> Inl e
                | Inr g \<Rightarrow> set_values g 0 0 {|1|})"

section \<open>Concrete grids used below\<close>

text \<open>\<open>SudokuGrid(1, 1)\<close> followed by \<open>set_values(0, 0, set())\<close>: one cell, no candidate.\<close>

definition empty_cell_1x1 :: "error + SudokuGrid" where
  "empty_cell_1x1 = (case SudokuGrid_init 1 1 None of
                       Inl e \<Rightarrow> Inl e
                     | Inr g \<Rightarrow> set_values g 0 0 {||})"

text \<open>A 2 x 2 grid with four irregular segments, as (row, column) pairs.\<close>

definition jigsaw_4x4 :: "(int \<times> int) list list" where
  "jigsaw_4x4 = [[(0, 0), (0, 1), (0, 2), (1, 0)], [(0, 3), (1, 3), (2, 3), (1, 2)],
                 [(1, 1), (2, 0), (2, 1), (3, 0)], [(2, 2), (3, 1), (3, 2), (3, 3)]]"

text \<open>\<open>SudokuGrid(1, 1)\<close> followed by \<open>set_values(0, 0, {1, 2})\<close>: \<open>set_values\<close>
  checks nothing.\<close>

definition two_candidates_1x1 :: "error + SudokuGrid" where
  "two_candidates_1x1 = (case SudokuGrid_init 1 1 None of
                           Inl e \<Rightarrow> Inl e
                         | Inr g \<Rightarrow> set_values g 0 0 {|1, 2|})"

text \<open>\<open>SudokuGrid(1, 5)\<close> (side 5; the blocks are the rows), a new set \<open>{5}\<close> stored at
  (0,0) and ONE new set \<open>{1, 2, 3, 4, 5}\<close> stored both at (0,1) and at (1,1); the same grid
  with only the \<open>{5}\<close> at (0,0), every cell its own object; and a solved 5 x 5 board with
  5 on the diagonal. For side 5 the subset table lists the subsets of \<open>{5..9}\<close>, so the
  value 5 is one the reduction does eliminate.\<close>

definition shared_5x5 :: "error + GridStore" where
  "shared_5x5 =
     (case GridStore_init 1 5 None of
        Inl e \<Rightarrow> Inl e
      | Inr s0 \<Rightarrow>
          (let (s1, a) = new_set {|5|} s0;
               (s2, b) = new_set {|1, 2, 3, 4, 5|} s1
           in case st_set_values s2 0 0 a of
                Inl e \<Rightarrow> Inl e
              | Inr s3 \<Rightarrow>
                  (case st_set_values s3 0 1 b of
                     Inl e \<Rightarrow> Inl e
                   | Inr s4 \<Rightarrow> st_set_values s4 1 1 b)))"

definition separate_5x5 :: "error + GridStore" where
  "separate_5x5 =
     (case GridStore_init 1 5 None of
        Inl e \<Rightarrow> Inl e
      | Inr s0 \<Rightarrow> (let (s1, a) = new_set {|5|} s0 in st_set_values s1 0 0 a))"

definition solution_5x5 :: "int list" where
  "solution_5x5 = [int ((k mod 5 + 5 - k div 5 + 4) mod 5) + 1. k \<leftarrow> [0..<25]]"



section \<open>Facts about the constructor and the trial copy\<close>

lemma copy_cells_prefix:
  "n \<le> length src \<Longrightarrow> n \<le> length (grid h) \<Longrightarrow>
   fold (\<lambda>i r. case r of
                    Inl e \<Rightarrow> Inl e
                  | Inr h \<Rightarrow> if i < length (grid h) then Inr (h\<lparr>grid := (grid h)[i := src ! i]\<rparr>)
                             else Inl IndexError)
        [0..<n] (Inr h)
   = Inr (h\<lparr>grid := take n src @ drop n (grid h)\<rparr>)"
proof (induction n)
  case 0
  show ?case by simp
next
  case (Suc n)
  have n: "n < length src" "n < length (grid h)" using Suc.prems by simp_all
  have upd: "(take n src @ drop n (grid h))[n := src ! n]
             = take (Suc n) src @ drop (Suc n) (grid h)"
    using n by (simp add: take_Suc_conv_app_nth list_update_append upd_conv_take_nth_drop)
  show ?case using Suc.IH n upd by simp
qed

lemma copy_cells_ok:
  "length src \<le> length (grid h) \<Longrightarrow>
   copy_cells src h = Inr (h\<lparr>grid := src @ drop (length src) (grid h)\<rparr>)"
  unfolding copy_cells_def using copy_cells_prefix[of "length src" src h] by simp

lemma init_3_3:
  "SudokuGrid_init 3 3 None =
     Inr \<lparr>dimensions = (9, 9), grid_values = [1..9],
          grid = replicate 81 (fset_of_list [1..9]),
          areas = row_areas 9 @ col_areas 9 @ default_regions 3 3,
          subsets = [(i, get_subset i). i \<leftarrow> [1..<2 ^ 9]]\<rparr>"
  by (simp add: SudokuGrid_init_def Let_def)

lemma init_2_2:
  "SudokuGrid_init 2 2 None =
     Inr \<lparr>dimensions = (4, 4), grid_values = [1..4],
          grid = replicate 16 (fset_of_list [1..4]),
          areas = row_areas 4 @ col_areas 4 @ default_regions 2 2,
          subsets = [(i, get_subset i). i \<leftarrow> [1..<2 ^ 4]]\<rparr>"
  by (simp add: SudokuGrid_init_def Let_def)

lemma length_concat_map_map:
  "length (concat (map (\<lambda>i. map (f i) ys) xs)) = length xs * length ys"
  by (induction xs) simp_all

lemma length_row_areas: "length (row_areas tot) = nat tot"
  by (simp add: row_areas_def py_range_def)

lemma length_col_areas: "length (col_areas tot) = nat tot"
  by (simp add: col_areas_def py_range_def)

lemma length_default_regions: "length (default_regions m n) = nat n * nat m"
  by (simp add: default_regions_def py_range_def length_concat_map_map)


lemma full_sets: "fset_of_list [1..4] = {|1, 2, 3, 4::int|}"
  "fset_of_list [1..9] = {|1, 2, 3, 4, 5, 6, 7, 8, 9::int|}"
  by code_simp+

section \<open>The areas of a constructed grid\<close>

lemma mult_add_less: "a < A \<Longrightarrow> b < B \<Longrightarrow> B * a + b < B * (A::nat)"
proof -
  assume a: "a < A" and b: "b < B"
  have "B * a + b < B * a + B" using b by simp
  also have "\<dots> = B * Suc a" by simp
  also have "\<dots> \<le> B * A" using a by (intro mult_le_mono2) simp
  finally show ?thesis .
qed

lemma length_concat_const:
  "\<forall>a\<in>set fam. length a = s \<Longrightarrow> length (concat fam) = length fam * s"
  by (induction fam) simp_all

lemma partitions_gridI:
  assumes len: "length fam = s" and each: "\<forall>a\<in>set fam. length a = s"
    and cover: "set (concat fam) = {0..<s * s}"
  shows "partitions_grid s fam"
proof -
  have "length (concat fam) = s * s" using length_concat_const[OF each] len by simp
  then have "card (set (concat fam)) = length (concat fam)" using cover by simp
  then have d: "distinct (concat fam)" by (rule card_distinct)
  then have "\<forall>a\<in>set fam. distinct a" by (simp add: distinct_concat_iff)
  then show ?thesis using len each d cover by (simp add: partitions_grid_def list_all_iff)
qed

lemma set_concat_map_map:
  "set (concat (map (\<lambda>i. map (f i) ys) xs)) = {f i j | i j. i \<in> set xs \<and> j \<in> set ys}"
  by auto

lemma in_concat_rows:
  "k \<in> set (concat (row_areas (int T))) \<longleftrightarrow> (\<exists>i j. i < T \<and> j < T \<and> k = T * i + j)"
  unfolding row_areas_def py_range_def set_concat_map_map by auto

lemma in_concat_cols:
  "k \<in> set (concat (col_areas (int T))) \<longleftrightarrow> (\<exists>i j. i < T \<and> j < T \<and> k = T * i + j)"
  unfolding col_areas_def py_range_def set_concat_map_map by auto

lemma div_mod_cover:
  "(\<exists>i j. i < T \<and> j < T \<and> k = T * i + j) \<longleftrightarrow> k < T * (T::nat)"
proof
  assume "\<exists>i j. i < T \<and> j < T \<and> k = T * i + j"
  then show "k < T * T" using mult_add_less by blast
next
  assume k: "k < T * T"
  then have T: "0 < T" by (cases T) simp_all
  have "k div T < T" using k by (simp add: less_mult_imp_div_less)
  moreover have "k mod T < T" using T by simp
  moreover have "k = T * (k div T) + k mod T" by simp
  ultimately show "\<exists>i j. i < T \<and> j < T \<and> k = T * i + j" by blast
qed

lemma set_concat_rows: "set (concat (row_areas (int T))) = {0..<T * T}"
proof (rule set_eqI)
  fix k show "k \<in> set (concat (row_areas (int T))) \<longleftrightarrow> k \<in> {0..<T * T}"
    unfolding in_concat_rows div_mod_cover by simp
qed

lemma set_concat_cols: "set (concat (col_areas (int T))) = {0..<T * T}"
proof (rule set_eqI)
  fix k show "k \<in> set (concat (col_areas (int T))) \<longleftrightarrow> k \<in> {0..<T * T}"
    unfolding in_concat_cols div_mod_cover by simp
qed

lemma partitions_rows: "partitions_grid T (row_areas (int T))"
proof (rule partitions_gridI)
  show "length (row_areas (int T)) = T" by (simp add: row_areas_def py_range_def)
  show "\<forall>a\<in>set (row_areas (int T)). length a = T" by (auto simp: row_areas_def py_range_def)
  show "set (concat (row_areas (int T))) = {0..<T * T}" by (rule set_concat_rows)
qed

lemma partitions_cols: "partitions_grid T (col_areas (int T))"
proof (rule partitions_gridI)
  show "length (col_areas (int T)) = T" by (simp add: col_areas_def py_range_def)
  show "\<forall>a\<in>set (col_areas (int T)). length a = T" by (auto simp: col_areas_def py_range_def)
  show "set (concat (col_areas (int T))) = {0..<T * T}" by (rule set_concat_cols)
qed


lemma set_concat_nested:
  "set (concat (concat (map (\<lambda>i. map (\<lambda>j. concat (map (\<lambda>r. map (h i j r) ss) rs)) js) is)))
   = {h i j r s | i j r s. i \<in> set is \<and> j \<in> set js \<and> r \<in> set rs \<and> s \<in> set ss}"
  by auto

lemma in_concat_regions:
  "k \<in> set (concat (default_regions m n)) \<longleftrightarrow>
     (\<exists>i j r s. i < nat n \<and> j < nat m \<and> r < nat m \<and> s < nat n
        \<and> k = nat (m * n) * nat m * i + nat n * j + nat (m * n) * r + s)"
  unfolding default_regions_def py_range_def set_concat_nested by auto

lemma regions_cover:
  fixes M N :: nat
  shows "(\<exists>i j r s. i < N \<and> j < M \<and> r < M \<and> s < N
            \<and> k = (M * N) * M * i + N * j + (M * N) * r + s) \<longleftrightarrow> k < (M * N) * (M * N)"
proof
  assume "\<exists>i j r s. i < N \<and> j < M \<and> r < M \<and> s < N
            \<and> k = (M * N) * M * i + N * j + (M * N) * r + s"
  then obtain i j r s where b: "i < N" "j < M" "r < M" "s < N"
    and k: "k = (M * N) * M * i + N * j + (M * N) * r + s" by blast
  have row: "M * i + r < M * N" using b by (simp add: mult_add_less)
  have col: "N * j + s < N * M" using b by (simp add: mult_add_less)
  have "k = (M * N) * (M * i + r) + (N * j + s)" using k by (simp add: algebra_simps)
  moreover have "(M * N) * (M * i + r) + (N * j + s) < (M * N) * (M * N)"
    using mult_add_less[of "M * i + r" "M * N" "N * j + s" "M * N"] row col
    by (simp add: mult.commute)
  ultimately show "k < (M * N) * (M * N)" by simp
next
  assume k: "k < (M * N) * (M * N)"
  let ?T = "M * N"
  have T: "0 < ?T" using k by (cases "?T") simp_all
  then have M: "0 < M" and N: "0 < N" by simp_all
  define row where "row = k div ?T"
  define col where "col = k mod ?T"
  define i where "i = row div M"
  define r where "r = row mod M"
  define j where "j = col div N"
  define s where "s = col mod N"
  have row: "row < N * M" using k by (simp add: row_def col_def less_mult_imp_div_less mult.commute)
  have col: "col < M * N" using T by (simp add: row_def col_def)
  have i: "i < N" unfolding i_def using row by (rule less_mult_imp_div_less)
  have j: "j < M" unfolding j_def using col by (rule less_mult_imp_div_less)
  have r: "r < M" using M by (simp add: r_def)
  have s: "s < N" using N by (simp add: s_def)
  have e1: "k = ?T * row + col" by (simp add: row_def col_def)
  have e2: "row = M * i + r" by (simp add: i_def r_def)
  have e3: "col = N * j + s" by (simp add: j_def s_def)
  have "k = ?T * (M * i + r) + (N * j + s)" using e1 e2 e3 by simp
  then have "k = ?T * M * i + N * j + ?T * r + s" by (simp add: algebra_simps)
  then show "\<exists>i j r s. i < N \<and> j < M \<and> r < M \<and> s < N
            \<and> k = (M * N) * M * i + N * j + (M * N) * r + s"
    using i j r s by blast
qed

lemma partitions_default_regions:
  assumes "1 \<le> m" "1 \<le> n"
  shows "partitions_grid (nat (m * n)) (default_regions m n)"
proof (rule partitions_gridI)
  have T: "nat (m * n) = nat m * nat n" using assms by (simp add: nat_mult_distrib)
  show "length (default_regions m n) = nat (m * n)"
    using T by (simp add: length_default_regions mult.commute)
  show "\<forall>a\<in>set (default_regions m n). length a = nat (m * n)"
    using T unfolding default_regions_def py_range_def set_concat_map_map
    by (auto simp: length_concat_map_map)
  show "set (concat (default_regions m n)) = {0..<nat (m * n) * nat (m * n)}"
  proof (rule set_eqI)
    fix k
    show "k \<in> set (concat (default_regions m n)) \<longleftrightarrow> k \<in> {0..<nat (m * n) * nat (m * n)}"
      unfolding in_concat_regions T regions_cover by simp
  qed
qed

lemma nat_image_upto: "nat ` {0..int K - 1} = {0..<K}"
proof (intro set_eqI iffI)
  fix x assume "x \<in> nat ` {0..int K - 1}"
  then show "x \<in> {0..<K}" by auto
next
  fix x assume "x \<in> {0..<K}"
  then have "int x \<in> {0..int K - 1}" by simp
  then have "nat (int x) \<in> nat ` {0..int K - 1}" by (rule imageI)
  then show "x \<in> nat ` {0..int K - 1}" by simp
qed

lemma partitions_segment_regions:
  assumes "segment_regions tot segments = Inr rs"
  shows "partitions_grid (nat tot) rs"
proof -
  let ?idx = "map (map (\<lambda>x. tot * fst x + snd x)) segments"
  have len: "int (length segments) = tot"
    and each: "list_all (\<lambda>s. int (length s) = tot) segments"
    and srt: "sort (concat ?idx) = [0..tot ^ 2 - 1]"
    and rs: "rs = map (map nat) ?idx"
    using assms by (auto simp: segment_regions_def Let_def split: if_splits)
  show ?thesis
  proof (rule partitions_gridI)
    show "length rs = nat tot" using rs len by auto
    show "\<forall>a\<in>set rs. length a = nat tot" using rs each by (auto simp: list_all_iff)
    have "set (concat ?idx) = set (sort (concat ?idx))" by simp
    also have "\<dots> = {0..tot ^ 2 - 1}" unfolding srt by simp
    finally have a: "set (concat ?idx) = {0..tot ^ 2 - 1}" .
    have tot: "tot = int (nat tot)" using len by auto
    have sq: "tot ^ 2 = int (nat tot * nat tot)"
      by (subst tot) (simp add: power2_eq_square)
    have "set (concat rs) = nat ` set (concat ?idx)"
      unfolding rs by (simp only: map_concat[symmetric] set_map)
    also have "\<dots> = {0..<nat tot * nat tot}"
      unfolding a sq by (rule nat_image_upto)
    finally show "set (concat rs) = {0..<nat tot * nat tot}" .
  qed
qed


lemma init_fields:
  assumes "SudokuGrid_init m n segments = Inr g"
  obtains rs where "0 \<le> m * n"
    and "g = \<lparr>dimensions = (nat (m * n), nat (m * n)), grid_values = [1..m * n],
              grid = replicate (nat ((m * n) ^ 2)) (fset_of_list [1..m * n]),
              areas = row_areas (m * n) @ col_areas (m * n) @ rs,
              subsets = [(i, get_subset i). i \<leftarrow> [1..<2 ^ nat (m * n)]]\<rparr>"
    and "rs = default_regions m n \<or> (\<exists>segs. segments = Some segs \<and> segment_regions (m * n) segs = Inr rs)"
  using assms unfolding SudokuGrid_init_def Let_def
  by (auto split: option.splits sum.splits if_splits)








subsection \<open>Which cells a row, a column and a block hold\<close>

lemma set_map_upt: "set (map f [0..<n]) = {f j | j. j < n}"
  by auto

lemma div_mod_atom: "b < (T::nat) \<Longrightarrow> (T * a + b) div T = a \<and> (T * a + b) mod T = b"
  by simp

lemma row_area_set:
  assumes "i < T"
  shows "set (row_areas (int T) ! i) = {k. k < T * T \<and> k div T = i}"
proof -
  have T: "0 < T" using assms by simp
  have r: "row_areas (int T) ! i = map (\<lambda>j. T * i + j) [0..<T]"
    using assms by (simp add: row_areas_def py_range_def)
  have "(\<exists>j<T. k = T * i + j) \<longleftrightarrow> k < T * T \<and> k div T = i" for k
  proof
    assume "\<exists>j<T. k = T * i + j"
    then obtain j where j: "j < T" "k = T * i + j" by blast
    have "k < T * T" using mult_add_less[OF assms j(1)] j(2) by simp
    moreover have "k div T = i" using j by simp
    ultimately show "k < T * T \<and> k div T = i" by simp
  next
    assume a: "k < T * T \<and> k div T = i"
    have "k mod T < T" using T by simp
    moreover have "k = T * i + k mod T" using a by auto
    ultimately show "\<exists>j<T. k = T * i + j" by blast
  qed
  then have "{T * i + j | j. j < T} = {k. k < T * T \<and> k div T = i}" by blast
  then show ?thesis unfolding r set_map_upt .
qed

lemma col_area_set:
  assumes "j < T"
  shows "set (col_areas (int T) ! j) = {k. k < T * T \<and> k mod T = j}"
proof -
  have T: "0 < T" using assms by simp
  have r: "col_areas (int T) ! j = map (\<lambda>i. T * i + j) [0..<T]"
    using assms by (simp add: col_areas_def py_range_def)
  have "(\<exists>i<T. k = T * i + j) \<longleftrightarrow> k < T * T \<and> k mod T = j" for k
  proof
    assume "\<exists>i<T. k = T * i + j"
    then obtain i where i: "i < T" "k = T * i + j" by blast
    have "k < T * T" using mult_add_less[OF i(1) assms] i(2) by simp
    moreover have "k mod T = j" using i assms by simp
    ultimately show "k < T * T \<and> k mod T = j" by simp
  next
    assume a: "k < T * T \<and> k mod T = j"
    have "k div T < T" using a by (simp add: less_mult_imp_div_less)
    moreover have "k = T * (k div T) + j" using a by auto
    ultimately show "\<exists>i<T. k = T * i + j" by blast
  qed
  then have "{T * i + j | i. i < T} = {k. k < T * T \<and> k mod T = j}" by blast
  then show ?thesis unfolding r set_map_upt .
qed

lemma concat_map_nth:
  "b < N * M \<Longrightarrow> concat (map (\<lambda>i. map (f i) [0..<M]) [0..<N]) ! b = f (b div M) (b mod M)"
proof (induction N)
  case 0
  then show ?case by simp
next
  case (Suc N)
  let ?pre = "concat (map (\<lambda>i. map (f i) [0..<M]) [0..<N])"
  have len: "length ?pre = N * M" by (simp add: length_concat_map_map)
  have split: "concat (map (\<lambda>i. map (f i) [0..<M]) [0..<Suc N]) = ?pre @ map (f N) [0..<M]"
    by simp
  show ?case
  proof (cases "b < N * M")
    case True
    then show ?thesis unfolding split using Suc.IH len by (simp add: nth_append)
  next
    case False
    then have ge: "N * M \<le> b" by simp
    have lt: "b - N * M < M" using Suc.prems ge by simp
    have M: "0 < M" using lt by simp
    have b: "b = N * M + (b - N * M)" using ge by simp
    have d: "b div M = N" by (subst b) (use lt in simp)
    have m: "b mod M = b - N * M" by (subst b) (use lt in simp)
    have "(?pre @ map (f N) [0..<M]) ! b = map (f N) [0..<M] ! (b - N * M)"
      using False len by (simp add: nth_append)
    also have "\<dots> = f N (b - N * M)" using lt by simp
    finally show ?thesis unfolding split d m .
  qed
qed

lemma block_index:
  fixes M N :: nat
  assumes i: "i < N" and j: "j < M"
  shows "(\<exists>r s. r < M \<and> s < N \<and> k = (M * N) * M * i + N * j + (M * N) * r + s)
         \<longleftrightarrow> k < (M * N) * (M * N) \<and> k div (M * N) div M = i \<and> k mod (M * N) div N = j"
proof
  assume "\<exists>r s. r < M \<and> s < N \<and> k = (M * N) * M * i + N * j + (M * N) * r + s"
  then obtain r s where rs: "r < M" "s < N"
    and k: "k = (M * N) * M * i + N * j + (M * N) * r + s" by blast
  have lt: "k < (M * N) * (M * N)" using regions_cover[of N M k] i j rs k by blast
  have col: "N * j + s < M * N" using mult_add_less[OF j rs(2)] by (simp add: mult.commute)
  have ke: "k = (M * N) * (M * i + r) + (N * j + s)" using k by (simp add: algebra_simps)
  have "k div (M * N) = M * i + r" "k mod (M * N) = N * j + s"
    unfolding ke using div_mod_atom[OF col, of "M * i + r"] by simp_all
  then have "k div (M * N) = M * i + r" and "k mod (M * N) = N * j + s" by simp_all
  then show "k < (M * N) * (M * N) \<and> k div (M * N) div M = i \<and> k mod (M * N) div N = j"
    using lt rs by simp
next
  assume a: "k < (M * N) * (M * N) \<and> k div (M * N) div M = i \<and> k mod (M * N) div N = j"
  have M: "0 < M" and N: "0 < N" using i j by simp_all
  define row where "row = k div (M * N)"
  define col where "col = k mod (M * N)"
  have e1: "k = (M * N) * row + col" by (simp add: row_def col_def)
  have e2: "row = M * i + row mod M" using a by (auto simp: row_def)
  have e3: "col = N * j + col mod N" using a by (auto simp: col_def)
  have "k = (M * N) * (M * i + row mod M) + (N * j + col mod N)" using e1 e2 e3 by simp
  then have "k = (M * N) * M * i + N * j + (M * N) * (row mod M) + col mod N"
    by (simp add: algebra_simps)
  moreover have "row mod M < M" "col mod N < N" using M N by simp_all
  ultimately show "\<exists>r s. r < M \<and> s < N \<and> k = (M * N) * M * i + N * j + (M * N) * r + s"
    by blast
qed

lemma default_region_set:
  assumes m: "1 \<le> m" and n: "1 \<le> n" and i: "i < nat n" and j: "j < nat m"
  shows "set (default_regions m n ! (i * nat m + j))
         = {k. k < nat (m * n) * nat (m * n)
               \<and> k div nat (m * n) div nat m = i \<and> k mod nat (m * n) div nat n = j}"
proof -
  have T: "nat (m * n) = nat m * nat n" using m by (simp add: nat_mult_distrib)
  have b: "i * nat m + j < nat n * nat m"
    using mult_add_less[OF i j] by (simp add: mult.commute)
  have d: "(i * nat m + j) div nat m = i" "(i * nat m + j) mod nat m = j" using j by simp_all
  have "default_regions m n ! (i * nat m + j)
        = concat (map (\<lambda>r. map (\<lambda>s. nat (m * n) * nat m * i + nat n * j + nat (m * n) * r + s)
                                   [0..<nat n]) [0..<nat m])"
    unfolding default_regions_def py_range_def
    by (subst concat_map_nth[OF b]) (simp only: d)
  then have "set (default_regions m n ! (i * nat m + j))
        = {nat (m * n) * nat m * i + nat n * j + nat (m * n) * r + s | r s.
             r \<in> set [0..<nat m] \<and> s \<in> set [0..<nat n]}"
    by (simp only: set_concat_map_map)
  also have "\<dots> = {k. k < nat (m * n) * nat (m * n)
               \<and> k div nat (m * n) div nat m = i \<and> k mod nat (m * n) div nat n = j}"
  proof (rule set_eqI)
    fix k
    have "(\<exists>r s. r < nat m \<and> s < nat n
              \<and> k = nat (m * n) * nat m * i + nat n * j + nat (m * n) * r + s)
          \<longleftrightarrow> k < nat (m * n) * nat (m * n)
               \<and> k div nat (m * n) div nat m = i \<and> k mod nat (m * n) div nat n = j"
      unfolding T by (rule block_index[OF i j])
    then show "k \<in> {nat (m * n) * nat m * i + nat n * j + nat (m * n) * r + s | r s.
                      r \<in> set [0..<nat m] \<and> s \<in> set [0..<nat n]}
               \<longleftrightarrow> k \<in> {k. k < nat (m * n) * nat (m * n)
               \<and> k div nat (m * n) div nat m = i \<and> k mod nat (m * n) div nat n = j}"
      by (simp only: mem_Collect_eq set_upt atLeastLessThan_iff) blast
  qed
  finally show ?thesis .
qed

section \<open>The fixpoint loop\<close>

lemma simplify_loop_narrows: "narrows g (fst (simplify_loop options g))"
proof (induction options g rule: simplify_loop.induct)
  case (1 options g)
  let ?g' = "reduce_options g"
  have n: "narrows g ?g'" by (rule narrows_reduce_options)
  show ?case
  proof (cases "options_sum ?g' = options")
    case True
    then show ?thesis using n by (subst simplify_loop.simps) (simp add: Let_def)
  next
    case False
    have "narrows ?g' (fst (simplify_loop (options_sum ?g') ?g'))"
      using "1.IH"[OF refl refl False] .
    with n have "narrows g (fst (simplify_loop (options_sum ?g') ?g'))"
      by (rule narrows_trans)
    then show ?thesis using False
      by (subst simplify_loop.simps) (simp add: Let_def case_prod_beta)
  qed
qed

lemma simplify_loop_fixpoint:
  "options = options_sum g \<Longrightarrow> reduce_options (fst (simplify_loop options g)) = fst (simplify_loop options g)"
proof (induction options g rule: simplify_loop.induct)
  case (1 options g)
  let ?g' = "reduce_options g"
  have n: "narrows g ?g'" by (rule narrows_reduce_options)
  show ?case
  proof (cases "options_sum ?g' = options")
    case True
    then have "?g' = g" using n "1.prems" by (simp add: narrows_options_eq)
    then show ?thesis using True by (subst (1 2) simplify_loop.simps) (simp add: Let_def)
  next
    case False
    have "reduce_options (fst (simplify_loop (options_sum ?g') ?g'))
          = fst (simplify_loop (options_sum ?g') ?g')"
      using "1.IH"[OF refl refl False refl] .
    then show ?thesis using False
      by (subst (1 2) simplify_loop.simps) (simp add: Let_def case_prod_beta)
  qed
qed

lemma simplify_loop_passes:
  "options = options_sum g \<Longrightarrow> snd (simplify_loop options g) \<le> options_sum g + 1"
proof (induction options g rule: simplify_loop.induct)
  case (1 options g)
  let ?g' = "reduce_options g"
  have le: "options_sum ?g' \<le> options_sum g"
    using narrows_reduce_options by (rule narrows_options_le)
  show ?case
  proof (cases "options_sum ?g' = options")
    case True
    then show ?thesis by (subst simplify_loop.simps) (simp add: Let_def)
  next
    case False
    have "snd (simplify_loop (options_sum ?g') ?g') \<le> options_sum ?g' + 1"
      using "1.IH"[OF refl refl False refl] .
    moreover have "options_sum ?g' < options_sum g" using le False "1.prems" by simp
    ultimately have "snd (simplify_loop (options_sum ?g') ?g') + 1 \<le> options_sum g + 1"
      by simp
    then show ?thesis using False
      by (subst simplify_loop.simps) (simp add: Let_def case_prod_beta)
  qed
qed

lemma narrows_simplify: "narrows g (simplify g)"
  by (simp add: simplify_def simplify_run_def simplify_loop_narrows)

lemma reduce_options_simplify: "reduce_options (simplify g) = simplify g"
  by (simp add: simplify_def simplify_run_def simplify_loop_fixpoint)

lemma simplify_fixpoint: "reduce_options g = g \<Longrightarrow> simplify g = g"
  unfolding simplify_def simplify_run_def
  by (subst simplify_loop.simps) (simp add: Let_def)

lemma reduce_options_funpow_le:
  "options_sum ((reduce_options ^^ Suc k) g) \<le> options_sum ((reduce_options ^^ k) g)"
  using narrows_reduce_options[of "(reduce_options ^^ k) g"] by (simp add: narrows_options_le)

section \<open>An empty cell in \<open>solve\<close>\<close>

lemma narrows_keeps_empty:
  "narrows g g' \<Longrightarrow> c < length (grid g) \<Longrightarrow> grid g ! c = {||}
   \<Longrightarrow> c < length (grid g') \<and> grid g' ! c = {||}"
  using narrows_nth[of g g' c] narrows_fields(5)[of g g'] by auto

lemma good_set_empty: "grid g ! idx = {||} \<Longrightarrow> good_set g idx row col = Inr {||}"
  by (simp add: good_set_def sorted_list_of_fset.rep_eq)

lemma resolve_cell_keeps_empty:
  assumes r: "resolve_cell idx g = Inr g'"
    and c: "c < length (grid g)" "grid g ! c = {||}"
  shows "length (grid g') = length (grid g) \<and> grid g' ! c = {||}"
proof (cases "defined g ! idx = False")
  case False
  then have "g' = g" using r by (simp add: resolve_cell_def)
  then show ?thesis using c by simp
next
  case True
  let ?d = "fst (dimensions g)"
  have d: "?d \<noteq> 0" using r True by (auto simp: resolve_cell_def split: if_splits)
  obtain gs where gs: "good_set g idx (idx div ?d) (idx mod ?d) = Inr gs"
    using r True d by (auto simp: resolve_cell_def Let_def split: sum.splits)
  obtain g2 where g2: "set_values g (idx div ?d) (idx mod ?d) gs = Inr g2"
    and g': "g' = simplify g2"
    using r True d gs by (auto simp: resolve_cell_def Let_def split: sum.splits)
  have k: "idx div ?d * ?d + idx mod ?d = idx" by simp
  have g2eq: "g2 = g\<lparr>grid := (grid g)[idx := gs]\<rparr>" and idx: "idx < length (grid g)"
    using g2 k by (auto simp: set_values_def Let_def split: if_splits)
  have "grid g2 ! c = {||}"
  proof (cases "idx = c")
    case True
    then have "gs = {||}" using gs c(2) by (simp add: good_set_empty)
    then show ?thesis using g2eq True c(1) by simp
  next
    case False
    then show ?thesis using g2eq c(2) by simp
  qed
  moreover have "c < length (grid g2)" "length (grid g2) = length (grid g)"
    using g2eq c(1) by simp_all
  ultimately show ?thesis
    using narrows_keeps_empty[OF narrows_simplify, of c g2] narrows_fields(5)[OF narrows_simplify, of g2] g'
    by simp
qed

lemma fold_resolve_error:
  "fold (\<lambda>idx r. case r of Inl e \<Rightarrow> Inl e | Inr h \<Rightarrow> resolve_cell idx h) xs (Inl e) = Inl e"
  by (induction xs) simp_all

lemma fold_resolve_keeps_empty:
  "fold (\<lambda>idx r. case r of Inl e \<Rightarrow> Inl e | Inr h \<Rightarrow> resolve_cell idx h) xs (Inr g) = Inr g'
   \<Longrightarrow> c < length (grid g) \<Longrightarrow> grid g ! c = {||}
   \<Longrightarrow> length (grid g') = length (grid g) \<and> grid g' ! c = {||}"
proof (induction xs arbitrary: g)
  case Nil
  then show ?case by simp
next
  case (Cons x xs)
  show ?case
  proof (cases "resolve_cell x g")
    case (Inl e)
    then show ?thesis using Cons.prems(1) by (simp add: fold_resolve_error)
  next
    case (Inr h)
    have h: "length (grid h) = length (grid g) \<and> grid h ! c = {||}"
      using resolve_cell_keeps_empty[OF Inr Cons.prems(2,3)] .
    have "length (grid g') = length (grid h) \<and> grid g' ! c = {||}"
      using Cons.IH[of h] Cons.prems(1,2) Inr h by simp
    then show ?thesis using h by simp
  qed
qed

lemma resolve_pass_keeps_empty:
  "resolve_pass g = Inr g' \<Longrightarrow> c < length (grid g) \<Longrightarrow> grid g ! c = {||}
   \<Longrightarrow> c < length (grid g') \<and> grid g' ! c = {||}"
  unfolding resolve_pass_def using fold_resolve_keeps_empty[of "[0..<length (grid g)]" g g' c]
  by simp

lemma empty_not_all_defined:
  "c < length (grid g) \<Longrightarrow> grid g ! c = {||} \<Longrightarrow> \<not> list_all (\<lambda>b. b) (defined g)"
proof -
  assume c: "c < length (grid g)" "grid g ! c = {||}"
  have "defined g ! c = False" using c by (simp add: defined_def fcard.rep_eq)
  moreover have "c < length (defined g)" using c by (simp add: defined_def)
  ultimately show ?thesis by (metis list_all_length)
qed

lemma solve_loop_empty:
  assumes "solve_loop g = Some y"
  shows "\<forall>c. c < length (grid g) \<longrightarrow> grid g ! c = {||} \<longrightarrow> (\<forall>g'. y \<noteq> Inr g')"
proof (rule solve_loop.raw_induct
    [where P = "\<lambda>g y. \<forall>c. c < length (grid g) \<longrightarrow> grid g ! c = {||} \<longrightarrow> (\<forall>g'. y \<noteq> Inr g')"],
    goal_cases)
  case (1 f g y)
  show ?case
  proof (intro allI impI)
    fix c g'
    assume c: "c < length (grid g)" "grid g ! c = {||}"
    have nd: "\<not> list_all (\<lambda>b. b) (defined g)"
      using empty_not_all_defined c by blast
    show "y \<noteq> Inr g'"
    proof (cases "resolve_pass g")
      case (Inl e)
      then show ?thesis using 1(2) nd by auto
    next
      case (Inr h)
      then have "f h = Some y" using 1(2) nd by simp
      moreover have "c < length (grid h) \<and> grid h ! c = {||}"
        using resolve_pass_keeps_empty[OF Inr c] .
      ultimately show ?thesis using 1(1) by blast
    qed
  qed
next
  case 2
  show ?case by (rule assms)
qed

lemma empty_cell_1x1_eq:
  "empty_cell_1x1 = Inr \<lparr>dimensions = (1, 1), grid_values = [1], grid = [{||}],
                         areas = [[0], [0], [0]], subsets = [(1, {|9|})]\<rparr>"
  by code_simp

section \<open>Validity of an area\<close>

lemma comprehension_filter:
  "concat (map (\<lambda>i. if P i then [f i] else []) xs) = map f (filter P xs)"
  by (induction xs) simp_all

lemma fcard_1_the_elem: "fcard A = 1 \<Longrightarrow> A = {|fthe_elem A|}"
proof -
  assume "fcard A = 1"
  then have "card (fset A) = 1" by (simp add: fcard.rep_eq)
  then obtain x where x: "fset A = {x}" by (auto simp: card_1_singleton_iff)
  then have "fset A = fset {|x|}" by simp
  then have "A = {|x|}" by (simp only: fset_inject)
  then show ?thesis by (simp add: fthe_elem.rep_eq)
qed

lemma length_fcard_distinct: "length xs = fcard (fset_of_list xs) \<longleftrightarrow> distinct xs"
proof -
  have c: "fcard (fset_of_list xs) = card (set xs)" by (simp add: fcard.rep_eq fset_of_list.rep_eq)
  show ?thesis
  proof
    assume "length xs = fcard (fset_of_list xs)"
    then have "card (set xs) = length xs" using c by simp
    then show "distinct xs" by (rule card_distinct)
  next
    assume "distinct xs"
    then have "card (set xs) = length xs" by (rule distinct_card)
    then show "length xs = fcard (fset_of_list xs)" using c by simp
  qed
qed

lemma union_eq_values:
  "ffUnion (fset_of_list (map (\<lambda>i. cells ! i) a)) = fset_of_list vs \<longleftrightarrow>
     (\<forall>v\<in>set vs. \<exists>i\<in>set a. v |\<in>| cells ! i) \<and> (\<forall>i\<in>set a. cells ! i |\<subseteq>| fset_of_list vs)"
  (is "?L \<longleftrightarrow> ?R")
proof -
  have m: "v |\<in>| ffUnion (fset_of_list (map (\<lambda>i. cells ! i) a)) \<longleftrightarrow> (\<exists>i\<in>set a. v |\<in>| cells ! i)" for v
    by (simp add: ffUnion.rep_eq fset_of_list.rep_eq)
  have n: "v |\<in>| fset_of_list vs \<longleftrightarrow> v \<in> set vs" for v
    by (simp add: fset_of_list.rep_eq)
  show ?thesis
  proof
    assume l: ?L
    have "\<exists>i\<in>set a. v |\<in>| cells ! i" if "v \<in> set vs" for v
    proof -
      have "v |\<in>| ffUnion (fset_of_list (map (\<lambda>i. cells ! i) a))" using that l n by simp
      then show ?thesis using m by simp
    qed
    moreover have "cells ! i |\<subseteq>| fset_of_list vs" if "i \<in> set a" for i
    proof (rule fsubsetI)
      fix v assume "v |\<in>| cells ! i"
      then have "v |\<in>| ffUnion (fset_of_list (map (\<lambda>i. cells ! i) a))" using that m by blast
      then show "v |\<in>| fset_of_list vs" using l by simp
    qed
    ultimately show ?R by blast
  next
    assume r: ?R
    show ?L
    proof (rule fset_eqI)
      fix v
      have "v \<in> set vs" if "i \<in> set a" "v |\<in>| cells ! i" for i
      proof -
        have "cells ! i |\<subseteq>| fset_of_list vs" using r that(1) by blast
        then have "v |\<in>| fset_of_list vs" using that(2) by (rule fsubsetD)
        then show ?thesis using n by simp
      qed
      moreover have "\<exists>i\<in>set a. v |\<in>| cells ! i" if "v \<in> set vs" using r that by blast
      ultimately show "v |\<in>| ffUnion (fset_of_list (map (\<lambda>i. cells ! i) a)) \<longleftrightarrow> v |\<in>| fset_of_list vs"
        unfolding m n by blast
    qed
  qed
qed

lemma validate_area_iff:
  assumes d: "distinct a" and r: "\<forall>i\<in>set a. i < length (grid g)"
    and v: "grid_values g = [1..int (fst (dimensions g))]"
  shows "validate_area g a \<longleftrightarrow>
           \<not> area_lacks_value g a \<and> \<not> area_out_of_range g a \<and> \<not> area_repeats_single g a"
proof -
  let ?P = "\<lambda>i. fcard (grid g ! i) = 1"
  let ?f = "\<lambda>i. fthe_elem (grid g ! i)"
  have def: "filter (\<lambda>i. defined g ! i) a = filter ?P a"
    using r by (intro filter_cong) (auto simp: defined_def)
  have ev: "[?f i. i \<leftarrow> a, defined g ! i] = map ?f (filter ?P a)"
    by (simp add: comprehension_filter def)
  have same: "?f i = ?f j \<longleftrightarrow> grid g ! i = grid g ! j" if "?P i" "?P j" for i j
  proof
    assume "?f i = ?f j"
    then have "{|?f i|} = {|?f j|}" by simp
    then show "grid g ! i = grid g ! j"
      using fcard_1_the_elem[OF that(1)] fcard_1_the_elem[OF that(2)] by simp
  next
    assume "grid g ! i = grid g ! j"
    then show "?f i = ?f j" by simp
  qed
  have "distinct (map ?f (filter ?P a)) \<longleftrightarrow> inj_on ?f (set (filter ?P a))"
    using d by (simp add: distinct_map)
  also have "\<dots> \<longleftrightarrow> \<not> area_repeats_single g a"
  proof
    assume inj: "inj_on ?f (set (filter ?P a))"
    show "\<not> area_repeats_single g a"
    proof
      assume "area_repeats_single g a"
      then obtain i j where ij: "i \<in> set a" "j \<in> set a" "i \<noteq> j" "?P i" "?P j"
        "grid g ! i = grid g ! j"
        unfolding area_repeats_single_def list_ex_iff by blast
      then have "?f i = ?f j" by simp
      moreover have "i \<in> set (filter ?P a)" "j \<in> set (filter ?P a)" using ij by simp_all
      ultimately have "i = j" using inj by (rule_tac inj_onD)
      then show False using ij(3) by simp
    qed
  next
    assume nr: "\<not> area_repeats_single g a"
    show "inj_on ?f (set (filter ?P a))"
    proof (rule inj_onI)
      fix i j assume i: "i \<in> set (filter ?P a)" and j: "j \<in> set (filter ?P a)"
        and e: "?f i = ?f j"
      have ij: "i \<in> set a" "j \<in> set a" "?P i" "?P j" using i j by simp_all
      have "grid g ! i = grid g ! j" using same[OF ij(3,4)] e by simp
      then show "i = j"
        using nr ij unfolding area_repeats_single_def list_ex_iff by blast
    qed
  qed
  finally have dist: "distinct (map ?f (filter ?P a)) \<longleftrightarrow> \<not> area_repeats_single g a" .
  have un: "ffUnion (fset_of_list (map (\<lambda>i. grid g ! i) a)) = fset_of_list (grid_values g)
            \<longleftrightarrow> \<not> area_lacks_value g a \<and> \<not> area_out_of_range g a"
    unfolding union_eq_values v area_lacks_value_def area_out_of_range_def list_ex_iff list_all_iff
    by blast
  show ?thesis
    unfolding validate_area_def Let_def ev length_fcard_distinct dist un by simp
qed


lemma well_formed_area:
  "well_formed g \<Longrightarrow> a \<in> set (areas g) \<Longrightarrow>
   length a = fst (dimensions g) \<and> distinct a \<and> (\<forall>i\<in>set a. i < length (grid g))"
  unfolding well_formed_def Let_def list_all_iff by blast

lemma well_formed_values: "well_formed g \<Longrightarrow> grid_values g = [1..int (fst (dimensions g))]"
  by (simp add: well_formed_def Let_def)

lemma in_range_not_out:
  assumes "well_formed g" "candidates_in_range g" "a \<in> set (areas g)"
  shows "\<not> area_out_of_range g a"
proof -
  have "grid g ! i |\<subseteq>| fset_of_list [1..int (fst (dimensions g))]" if "i \<in> set a" for i
  proof -
    have "i < length (grid g)" using well_formed_area[OF assms(1,3)] that by blast
    then show ?thesis using assms(2) by (simp add: candidates_in_range_def list_all_length)
  qed
  then show ?thesis by (simp add: area_out_of_range_def list_ex_iff)
qed

section \<open>Soundness of one reduction step\<close>

lemma fits_nth: "fits g sol \<Longrightarrow> c < length (grid g) \<Longrightarrow> sol ! c |\<in>| grid g ! c"
  by (simp add: fits_def list_all2_conv_all_nth)

lemma fold_remove_nth:
  "c < length (grid g) \<Longrightarrow>
   grid (fold (\<lambda>j g'. g'\<lparr>grid := (grid g')[j := grid g' ! j |-| S]\<rparr>) js g) ! c
   = (if c \<in> set js then grid g ! c |-| S else grid g ! c)"
proof (induction js arbitrary: g)
  case Nil
  show ?case by simp
next
  case (Cons j js)
  let ?h = "g\<lparr>grid := (grid g)[j := grid g ! j |-| S]\<rparr>"
  have len: "c < length (grid ?h)" using Cons.prems by simp
  have h: "grid ?h ! c = (if c = j then grid g ! c |-| S else grid g ! c)"
    using Cons.prems by (simp add: nth_list_update)
  have ih: "grid (fold (\<lambda>j g'. g'\<lparr>grid := (grid g')[j := grid g' ! j |-| S]\<rparr>) js ?h) ! c
            = (if c \<in> set js then grid ?h ! c |-| S else grid ?h ! c)"
    using Cons.IH[OF len] .
  show ?case
  proof (cases "c = j")
    case True
    have "grid ?h ! c |-| S = grid g ! c |-| S" "grid ?h ! c = grid g ! c |-| S"
      using h True by auto
    then show ?thesis using ih True by simp
  next
    case False
    have "grid ?h ! c = grid g ! c" using h False by simp
    then show ?thesis using ih False by simp
  qed
qed

lemma fold_remove_length:
  "length (grid (fold (\<lambda>j g'. g'\<lparr>grid := (grid g')[j := grid g' ! j |-| S]\<rparr>) js g))
   = length (grid g)"
  by (induction js arbitrary: g) simp_all

text \<open>The counting argument: if exactly \<open>|S|\<close> cells of an area are confined to \<open>S\<close>, an
  assignment that is injective on the area and respects the candidates puts no value of
  \<open>S\<close> in any other cell of the area.\<close>

lemma confined_take_all:
  assumes d: "distinct a"
    and inj: "inj_on (\<lambda>i. sol ! i) (set a)"
    and mem: "\<forall>i\<in>set a. sol ! i |\<in>| cells ! i"
    and cnt: "length [i \<leftarrow> a. cells ! i |\<subseteq>| S] = fcard S"
    and c: "c \<in> set a" "\<not> cells ! c |\<subseteq>| S"
  shows "sol ! c |\<notin>| S"
proof
  assume v: "sol ! c |\<in>| S"
  let ?C = "set [i \<leftarrow> a. cells ! i |\<subseteq>| S]"
  have sub: "(\<lambda>i. sol ! i) ` ?C \<subseteq> fset S"
  proof
    fix x assume "x \<in> (\<lambda>i. sol ! i) ` ?C"
    then obtain i where i: "i \<in> set a" "cells ! i |\<subseteq>| S" "x = sol ! i" by auto
    then have "sol ! i |\<in>| cells ! i" using mem by blast
    then have "sol ! i |\<in>| S" using fsubsetD[OF i(2)] by blast
    then show "x \<in> fset S" using i(3) by simp
  qed
  have injC: "inj_on (\<lambda>i. sol ! i) ?C" using inj by (rule inj_on_subset) auto
  have "card ((\<lambda>i. sol ! i) ` ?C) = card ?C" using injC by (rule card_image)
  also have "\<dots> = length [i \<leftarrow> a. cells ! i |\<subseteq>| S]"
  proof -
    have "distinct [i \<leftarrow> a. cells ! i |\<subseteq>| S]" using d by simp
    then show ?thesis by (rule distinct_card)
  qed
  also have "\<dots> = card (fset S)" using cnt by (simp add: fcard.rep_eq)
  finally have "card ((\<lambda>i. sol ! i) ` ?C) = card (fset S)" .
  then have "(\<lambda>i. sol ! i) ` ?C = fset S"
    using sub by (intro card_subset_eq) simp_all
  then have "sol ! c \<in> (\<lambda>i. sol ! i) ` ?C" using v by simp
  then obtain i where i: "i \<in> ?C" "sol ! c = sol ! i" by blast
  have "i \<in> set a" "cells ! i |\<subseteq>| S" using i(1) by simp_all
  then have "c = i" using inj_onD[OF inj i(2) c(1)] by blast
  then show False using \<open>cells ! i |\<subseteq>| S\<close> c(2) by simp
qed

lemma reduce_subset_fits:
  assumes f: "fits g sol"
    and a: "length a = fst (dimensions g)" "distinct a" "\<forall>i\<in>set a. i < length (grid g)"
    and inj: "inj_on (\<lambda>i. sol ! i) (set a)"
  shows "fits (reduce_subset a S g) sol"
proof -
  let ?t = "[i \<leftarrow> a. \<not> grid g ! i |\<subseteq>| S]"
  let ?g' = "fold (\<lambda>j g'. g'\<lparr>grid := (grid g')[j := grid g' ! j |-| S]\<rparr>) ?t g"
  show ?thesis
  proof (cases "int (length ?t) = int (fst (dimensions g)) - int (fcard S)")
    case False
    then show ?thesis using f by (simp add: reduce_subset_def)
  next
    case True
    have "length [i \<leftarrow> a. grid g ! i |\<subseteq>| S] + length ?t = length a"
      by (rule sum_length_filter_compl)
    then have cnt: "length [i \<leftarrow> a. grid g ! i |\<subseteq>| S] = fcard S"
      using True a(1) by simp
    have mem: "\<forall>i\<in>set a. sol ! i |\<in>| grid g ! i" using f a(3) fits_nth by blast
    have "sol ! c |\<in>| grid ?g' ! c" if c: "c < length (grid g)" for c
    proof (cases "c \<in> set ?t")
      case False
      have "grid ?g' ! c = grid g ! c"
        by (subst fold_remove_nth[OF c]) (simp only: False if_False)
      then show ?thesis using fits_nth[OF f c] by simp
    next
      case True
      then have "c \<in> set a" "\<not> grid g ! c |\<subseteq>| S" by simp_all
      then have "sol ! c |\<notin>| S"
        using confined_take_all[OF a(2) inj mem cnt] by blast
      moreover have "grid ?g' ! c = grid g ! c |-| S"
        by (subst fold_remove_nth[OF c]) (simp only: True if_True)
      ultimately show ?thesis using fits_nth[OF f c] by simp
    qed
    then have "fits ?g' sol"
      using f by (simp add: fits_def list_all2_conv_all_nth fold_remove_length)
    then show ?thesis using True by (simp add: reduce_subset_def)
  qed
qed


lemma fold_invariant:
  "(\<And>x h. x \<in> set xs \<Longrightarrow> I h \<Longrightarrow> I (f x h)) \<Longrightarrow> I g \<Longrightarrow> I (fold f xs g)"
  by (induction xs arbitrary: g) simp_all

lemma reduce_area_fits:
  assumes f: "fits g sol"
    and a: "length a = fst (dimensions g)" "distinct a" "\<forall>i\<in>set a. i < length (grid g)"
    and inj: "inj_on (\<lambda>i. sol ! i) (set a)"
  shows "fits (reduce_area a g) sol"
proof -
  let ?I = "\<lambda>h. fits h sol \<and> dimensions h = dimensions g \<and> length (grid h) = length (grid g)"
  let ?F = "\<lambda>(idx, test_set). reduce_subset a test_set"
  have step: "?I (?F x h)" if "?I h" for x h
  proof -
    obtain idx S where x: "x = (idx, S)" by (cases x)
    have "fits (reduce_subset a S h) sol"
      using reduce_subset_fits[of h sol a S] that a inj by simp
    moreover have "dimensions (reduce_subset a S h) = dimensions h"
      "length (grid (reduce_subset a S h)) = length (grid h)"
      using narrows_fields[OF narrows_reduce_subset[of h a S]] by simp_all
    ultimately show ?thesis using that x by simp
  qed
  have "?I (fold ?F (subsets g) g)"
  proof (rule fold_invariant[where I = ?I])
    show "?I g" using f by simp
  next
    fix x h assume "?I h"
    then show "?I (?F x h)" by (rule step)
  qed
  then show ?thesis by (simp add: reduce_area_def)
qed

lemma reduce_options_fits:
  assumes f: "fits g sol"
    and a: "\<forall>a\<in>set (areas g). length a = fst (dimensions g) \<and> distinct a
              \<and> (\<forall>i\<in>set a. i < length (grid g)) \<and> inj_on (\<lambda>i. sol ! i) (set a)"
  shows "fits (reduce_options g) sol"
proof -
  let ?I = "\<lambda>h. fits h sol \<and> dimensions h = dimensions g \<and> length (grid h) = length (grid g)"
  have step: "?I (reduce_area x h)" if "x \<in> set (areas g)" "?I h" for x h
  proof -
    have "fits (reduce_area x h) sol"
      using reduce_area_fits[of h sol x] that a by simp
    moreover have "dimensions (reduce_area x h) = dimensions h"
      "length (grid (reduce_area x h)) = length (grid h)"
      using narrows_fields[OF narrows_reduce_area[of h x]] by simp_all
    ultimately show ?thesis using that by simp
  qed
  have "?I (fold reduce_area (areas g) g)"
  proof (rule fold_invariant[where I = ?I])
    show "?I g" using f by simp
  next
    fix x h assume "x \<in> set (areas g)" "?I h"
    then show "?I (reduce_area x h)" by (rule step)
  qed
  then show ?thesis by (simp add: reduce_options_def)
qed

lemma completion_inj:
  assumes wf: "well_formed g" and r: "candidates_in_range g" and c: "completion g sol"
    and a: "a \<in> set (areas g)"
  shows "inj_on (\<lambda>i. sol ! i) (set a)"
proof (rule inj_onI)
  fix i j assume i: "i \<in> set a" and j: "j \<in> set a" and e: "sol ! i = sol ! j"
  show "i = j"
  proof (rule ccontr)
    assume ne: "i \<noteq> j"
    have il: "i < length (grid g)" using well_formed_area[OF wf a] i by blast
    have "sol ! i |\<in>| grid g ! i" using c il by (simp add: completion_def fits_nth)
    moreover have "grid g ! i |\<subseteq>| fset_of_list [1..int (fst (dimensions g))]"
      using r il by (simp add: candidates_in_range_def list_all_length)
    ultimately have "sol ! i |\<in>| fset_of_list [1..int (fst (dimensions g))]"
      by (rule_tac fsubsetD)
    then have v: "sol ! i \<in> set [1..int (fst (dimensions g))]"
      by (simp add: fset_of_list.rep_eq)
    have one: "length [k \<leftarrow> a. sol ! k = sol ! i] = 1"
      using c a v by (simp add: completion_def list_all_iff)
    have "{i, j} \<subseteq> set [k \<leftarrow> a. sol ! k = sol ! i]" using i j e by simp
    then have "card {i, j} \<le> card (set [k \<leftarrow> a. sol ! k = sol ! i])"
      by (intro card_mono) simp_all
    also have "\<dots> \<le> length [k \<leftarrow> a. sol ! k = sol ! i]" by (rule card_length)
    finally show False using one ne by simp
  qed
qed

lemma reduce_options_keeps_completion:
  assumes wf: "well_formed g" and r: "candidates_in_range g" and c: "completion g sol"
  shows "fits (reduce_options g) sol"
proof (rule reduce_options_fits)
  show "fits g sol" using c by (simp add: completion_def)
  show "\<forall>a\<in>set (areas g). length a = fst (dimensions g) \<and> distinct a
              \<and> (\<forall>i\<in>set a. i < length (grid g)) \<and> inj_on (\<lambda>i. sol ! i) (set a)"
    using well_formed_area[OF wf] completion_inj[OF wf r c] by blast
qed

subsection \<open>The same on a store of set objects\<close>

text \<open>When the cells are separate objects, a step on the store is the step on the values:
  the update of the object of cell \<open>j\<close> changes cell \<open>j\<close> of the view and no other.\<close>

lemma view_fields:
  "dimensions (view s) = st_dimensions s" "areas (view s) = st_areas s"
  "length (grid (view s)) = length (cell_refs s)"
  by (simp_all add: view_def)

lemma view_grid_nth: "i < length (cell_refs s) \<Longrightarrow> grid (view s) ! i = objects s ! (cell_refs s ! i)"
  by (simp add: view_def)

lemma fits_grid_cong: "grid g = grid h \<Longrightarrow> fits g sol = fits h sol"
  by (simp add: fits_def)

lemma fold_remove_grid:
  "grid (fold (\<lambda>j g'. g'\<lparr>grid := (grid g')[j := grid g' ! j |-| S]\<rparr>) js g)
   = fold (\<lambda>j xs. xs[j := xs ! j |-| S]) js (grid g)"
  by (induction js arbitrary: g) simp_all

lemma remove_step_view:
  assumes sep: "separate s" and j: "j < length (cell_refs s)"
  shows "grid (view (s\<lparr>objects := (objects s)[cell_refs s ! j := x]\<rparr>)) = (grid (view s))[j := x]"
proof (rule nth_equalityI)
  show "length (grid (view (s\<lparr>objects := (objects s)[cell_refs s ! j := x]\<rparr>)))
        = length ((grid (view s))[j := x])"
    by (simp add: view_def)
next
  fix k assume "k < length (grid (view (s\<lparr>objects := (objects s)[cell_refs s ! j := x]\<rparr>)))"
  then have k: "k < length (cell_refs s)" by (simp add: view_def)
  have d: "distinct (cell_refs s)" and r: "cell_refs s ! j < length (objects s)"
    using sep j by (simp_all add: separate_def list_all_length)
  show "grid (view (s\<lparr>objects := (objects s)[cell_refs s ! j := x]\<rparr>)) ! k = (grid (view s))[j := x] ! k"
  proof (cases "k = j")
    case True
    then show ?thesis using k r by (simp add: view_def)
  next
    case False
    then have "cell_refs s ! k \<noteq> cell_refs s ! j" using d k j by (simp add: nth_eq_iff_index_eq)
    then show ?thesis using False k by (simp add: view_def)
  qed
qed

lemma st_fold_view:
  assumes "separate s" and "\<forall>j\<in>set js. j < length (cell_refs s) \<and> cell_refs s ! j \<noteq> t"
  shows "grid (view (fold (\<lambda>j s'. s'\<lparr>objects := (objects s')[cell_refs s' ! j :=
                        objects s' ! (cell_refs s' ! j) |-| objects s' ! t]\<rparr>) js s))
         = fold (\<lambda>j xs. xs[j := xs ! j |-| objects s ! t]) js (grid (view s))
       \<and> cell_refs (fold (\<lambda>j s'. s'\<lparr>objects := (objects s')[cell_refs s' ! j :=
                        objects s' ! (cell_refs s' ! j) |-| objects s' ! t]\<rparr>) js s) = cell_refs s
       \<and> st_dimensions (fold (\<lambda>j s'. s'\<lparr>objects := (objects s')[cell_refs s' ! j :=
                        objects s' ! (cell_refs s' ! j) |-| objects s' ! t]\<rparr>) js s) = st_dimensions s
       \<and> length (objects (fold (\<lambda>j s'. s'\<lparr>objects := (objects s')[cell_refs s' ! j :=
                        objects s' ! (cell_refs s' ! j) |-| objects s' ! t]\<rparr>) js s))
         = length (objects s)"
  using assms
proof (induction js arbitrary: s)
  case Nil
  show ?case by simp
next
  case (Cons j js)
  let ?x = "objects s ! (cell_refs s ! j) |-| objects s ! t"
  let ?s1 = "s\<lparr>objects := (objects s)[cell_refs s ! j := ?x]\<rparr>"
  have j: "j < length (cell_refs s)" and jt: "cell_refs s ! j \<noteq> t" using Cons.prems(2) by simp_all
  have sep1: "separate ?s1" using Cons.prems(1) by (simp add: separate_def)
  have rest: "\<forall>j\<in>set js. j < length (cell_refs ?s1) \<and> cell_refs ?s1 ! j \<noteq> t"
    using Cons.prems(2) by simp
  have t: "objects ?s1 ! t = objects s ! t" using jt by simp
  have g1: "grid (view ?s1) = (grid (view s))[j := grid (view s) ! j |-| objects s ! t]"
    using remove_step_view[OF Cons.prems(1) j, of ?x] view_grid_nth[OF j] by simp
  show ?case
    using Cons.IH[OF sep1 rest] unfolding t g1 by simp
qed

lemma st_reduce_subset_view:
  assumes sep: "separate s" and a: "\<forall>i\<in>set a. i < length (cell_refs s)"
  shows "grid (view (st_reduce_subset a t s)) = grid (reduce_subset a (objects s ! t) (view s))
       \<and> cell_refs (st_reduce_subset a t s) = cell_refs s
       \<and> st_dimensions (st_reduce_subset a t s) = st_dimensions s
       \<and> length (objects (st_reduce_subset a t s)) = length (objects s)"
proof -
  let ?ts = "[i \<leftarrow> a. \<not> (objects s ! (cell_refs s ! i) |\<subseteq>| objects s ! t)]"
  have same: "[i \<leftarrow> a. \<not> (grid (view s) ! i |\<subseteq>| objects s ! t)] = ?ts"
    using a by (intro filter_cong) (simp_all add: view_grid_nth)
  have ok: "\<forall>j\<in>set ?ts. j < length (cell_refs s) \<and> cell_refs s ! j \<noteq> t"
    using a by auto
  show ?thesis
    unfolding st_reduce_subset_def reduce_subset_def Let_def same view_fields
    using st_fold_view[OF sep ok] by (simp add: fold_remove_grid)
qed

lemma st_reduce_subset_fits:
  assumes sep: "separate s" and f: "fits (view s) sol"
    and a: "length a = fst (st_dimensions s)" "distinct a" "\<forall>i\<in>set a. i < length (cell_refs s)"
    and inj: "inj_on (\<lambda>i. sol ! i) (set a)"
  shows "fits (view (st_reduce_subset a t s)) sol \<and> separate (st_reduce_subset a t s)
       \<and> cell_refs (st_reduce_subset a t s) = cell_refs s
       \<and> st_dimensions (st_reduce_subset a t s) = st_dimensions s"
proof -
  note v = st_reduce_subset_view[OF sep a(3), of t]
  have "fits (reduce_subset a (objects s ! t) (view s)) sol"
    using reduce_subset_fits[OF f _ a(2) _ inj] a(1,3) by (simp add: view_fields)
  then have "fits (view (st_reduce_subset a t s)) sol"
    using fits_grid_cong[of "view (st_reduce_subset a t s)"] v by simp
  moreover have "separate (st_reduce_subset a t s)"
    using sep v by (simp add: separate_def)
  ultimately show ?thesis using v by simp
qed

lemma st_reduce_area_fits:
  assumes sep: "separate s" and f: "fits (view s) sol"
    and a: "length a = fst (st_dimensions s)" "distinct a" "\<forall>i\<in>set a. i < length (cell_refs s)"
    and inj: "inj_on (\<lambda>i. sol ! i) (set a)"
  shows "fits (view (st_reduce_area a s)) sol \<and> separate (st_reduce_area a s)
       \<and> cell_refs (st_reduce_area a s) = cell_refs s
       \<and> st_dimensions (st_reduce_area a s) = st_dimensions s"
proof -
  let ?I = "\<lambda>h. fits (view h) sol \<and> separate h \<and> cell_refs h = cell_refs s
                \<and> st_dimensions h = st_dimensions s"
  let ?F = "\<lambda>(idx, t). st_reduce_subset a t"
  have step: "?I (?F x h)" if "?I h" for x :: "nat \<times> nat" and h :: GridStore
  proof -
    obtain idx t where x: "x = (idx, t)" by (cases x)
    have "?I (st_reduce_subset a t h)"
      using st_reduce_subset_fits[of h sol a t] that a inj by simp
    then show ?thesis unfolding x by simp
  qed
  have "?I (fold ?F (table s) s)"
  proof (rule fold_invariant[where I = ?I])
    fix x :: "nat \<times> nat" and h :: GridStore
    assume "?I h"
    then show "?I (?F x h)" by (rule step)
  next
    show "?I s" using sep f by simp
  qed
  then show ?thesis unfolding st_reduce_area_def .
qed

lemma st_reduce_options_fits:
  assumes sep: "separate s" and f: "fits (view s) sol"
    and a: "\<forall>a\<in>set (st_areas s). length a = fst (st_dimensions s) \<and> distinct a
              \<and> (\<forall>i\<in>set a. i < length (cell_refs s)) \<and> inj_on (\<lambda>i. sol ! i) (set a)"
  shows "fits (view (st_reduce_options s)) sol \<and> cell_refs (st_reduce_options s) = cell_refs s"
proof -
  let ?I = "\<lambda>h. fits (view h) sol \<and> separate h \<and> cell_refs h = cell_refs s
                \<and> st_dimensions h = st_dimensions s"
  have "?I (fold st_reduce_area (st_areas s) s)"
  proof (rule fold_invariant[where I = ?I])
    fix x :: "nat list" and h :: GridStore
    assume x: "x \<in> set (st_areas s)" and h: "?I h"
    show "?I (st_reduce_area x h)"
      using st_reduce_area_fits[of h sol x] x h a by simp
  next
    show "?I s" using sep f by simp
  qed
  then show ?thesis unfolding st_reduce_options_def by simp
qed

section \<open>The number of passes of \<open>simplify\<close>\<close>

text \<open>A cell that loses candidates in \<open>reduce_options\<close> is not contained in the test set, so
  it keeps a candidate: a pass never empties a cell, and a positive sum stays positive.\<close>

lemma options_sum_pos: "0 < options_sum g \<longleftrightarrow> (\<exists>c<length (grid g). grid g ! c \<noteq> {||})"
proof -
  have "0 < sum_list (map fcard xs) \<longleftrightarrow> (\<exists>x\<in>set xs. x \<noteq> {||})" for xs :: "int fset list"
    by (induction xs) (auto simp: fcard.rep_eq)
  then have "0 < options_sum g \<longleftrightarrow> (\<exists>x\<in>set (grid g). x \<noteq> {||})"
    by (simp add: options_sum_def)
  also have "\<dots> \<longleftrightarrow> (\<exists>c<length (grid g). grid g ! c \<noteq> {||})"
    by (metis in_set_conv_nth)
  finally show ?thesis .
qed

lemma reduce_subset_keeps_candidate:
  assumes "c < length (grid g)" and "grid g ! c \<noteq> {||}"
  shows "grid (reduce_subset a S g) ! c \<noteq> {||}"
proof -
  let ?t = "[i \<leftarrow> a. \<not> grid g ! i |\<subseteq>| S]"
  have "(if c \<in> set ?t then grid g ! c |-| S else grid g ! c) \<noteq> {||}"
  proof (cases "c \<in> set ?t")
    case True
    then have "\<not> grid g ! c |\<subseteq>| S" by simp
    then have "grid g ! c |-| S \<noteq> {||}" by auto
    then show ?thesis using True by simp
  next
    case False
    then show ?thesis using assms(2) by simp
  qed
  then have f: "grid (fold (\<lambda>j g'. g'\<lparr>grid := (grid g')[j := grid g' ! j |-| S]\<rparr>) ?t g) ! c \<noteq> {||}"
    unfolding fold_remove_nth[OF assms(1)] .
  show ?thesis
  proof (cases "int (length ?t) = int (fst (dimensions g)) - int (fcard S)")
    case True
    then have "reduce_subset a S g
               = fold (\<lambda>j g'. g'\<lparr>grid := (grid g')[j := grid g' ! j |-| S]\<rparr>) ?t g"
      by (simp add: reduce_subset_def Let_def)
    then show ?thesis using f by simp
  next
    case False
    then have "reduce_subset a S g = g" by (simp add: reduce_subset_def Let_def)
    then show ?thesis using assms(2) by simp
  qed
qed

lemma reduce_options_keeps_candidate:
  assumes "c < length (grid g)" and "grid g ! c \<noteq> {||}"
  shows "grid (reduce_options g) ! c \<noteq> {||}"
proof -
  let ?I = "\<lambda>h. length (grid h) = length (grid g) \<and> grid h ! c \<noteq> {||}"
  have sub: "?I (reduce_subset a S h)" if "?I h" for a S h
    using reduce_subset_keeps_candidate[of c h a S] narrows_fields(5)[OF narrows_reduce_subset[of h a S]]
      that assms(1) by simp
  have area: "?I (reduce_area a h)" if "?I h" for a h
    unfolding reduce_area_def
  proof (rule fold_invariant[where I = ?I])
    show "?I h" by (rule that)
  next
    fix x :: "nat \<times> int fset" and k :: SudokuGrid
    assume "?I k"
    then show "?I ((\<lambda>(idx, test_set). reduce_subset a test_set) x k)"
      using sub by (cases x) simp
  qed
  have "?I (fold reduce_area (areas g) g)"
  proof (rule fold_invariant[where I = ?I])
    show "?I g" using assms(2) by simp
  next
    fix x :: "nat list" and k :: SudokuGrid
    assume "?I k"
    then show "?I (reduce_area x k)" by (rule area)
  qed
  then show ?thesis by (simp add: reduce_options_def)
qed

lemma reduce_options_sum_pos: "0 < options_sum g \<Longrightarrow> 0 < options_sum (reduce_options g)"
proof -
  assume "0 < options_sum g"
  then obtain c where c: "c < length (grid g)" "grid g ! c \<noteq> {||}"
    using options_sum_pos by blast
  have "c < length (grid (reduce_options g))"
    using narrows_fields(5)[OF narrows_reduce_options[of g]] c(1) by simp
  then show ?thesis using reduce_options_keeps_candidate[OF c] options_sum_pos by blast
qed

lemma simplify_loop_passes_pos:
  "options = options_sum g \<Longrightarrow> 0 < options_sum g \<Longrightarrow> snd (simplify_loop options g) \<le> options_sum g"
proof (induction options g rule: simplify_loop.induct)
  case (1 options g)
  let ?g' = "reduce_options g"
  have le: "options_sum ?g' \<le> options_sum g"
    using narrows_reduce_options by (rule narrows_options_le)
  have pos: "0 < options_sum ?g'" using "1.prems"(2) by (rule reduce_options_sum_pos)
  show ?case
  proof (cases "options_sum ?g' = options")
    case True
    then show ?thesis using "1.prems"(2) by (subst simplify_loop.simps) (simp add: Let_def)
  next
    case False
    have "snd (simplify_loop (options_sum ?g') ?g') \<le> options_sum ?g'"
      using "1.IH"[OF refl refl False refl pos] .
    moreover have "options_sum ?g' < options_sum g" using le False "1.prems"(1) by simp
    ultimately have "snd (simplify_loop (options_sum ?g') ?g') + 1 \<le> options_sum g"
      by simp
    then show ?thesis using False
      by (subst simplify_loop.simps) (simp add: Let_def case_prod_beta)
  qed
qed

lemma simplify_passes_bound: "simplify_passes g \<le> max 1 (options_sum g)"
proof (cases "0 < options_sum g")
  case True
  then show ?thesis
    using simplify_loop_passes_pos[of "options_sum g" g]
    by (simp add: simplify_passes_def simplify_run_def)
next
  case False
  then show ?thesis
    using simplify_loop_passes[of "options_sum g" g]
    by (simp add: simplify_passes_def simplify_run_def)
qed

section \<open>An empty cell after \<open>simplify\<close>\<close>

subsection \<open>The subset table of a grid of side 9\<close>







subsection \<open>A fixpoint of a pass is a fixpoint of every step\<close>





subsection \<open>Counting the cells confined to a set of values\<close>




subsection \<open>The trial grid\<close>





section \<open>The claims\<close>

text \<open>
  C2 (the code departs from the claim). On the 4 x 4 board with a 1 at (0,0), \<open>simplify\<close>
  returns the grid unchanged: the other cells of row 0 (1, 2, 3), of column 0 (4, 8, 12)
  and of the region of (0,0) (1, 4, 5) all still hold the candidate 1. The subset table of
  a grid of side 4 is built from 9-character bit strings and lists subsets of
  \<open>{6, 7, 8, 9}\<close>, never \<open>{1}\<close>.
\<close>

theorem simplify_4x4_keeps_candidate:
  "(case board_4x4 of
      Inl e \<Rightarrow> False
    | Inr h \<Rightarrow> simplify h = h
             \<and> list_all (\<lambda>i. 1 |\<in>| grid (simplify h) ! i) [1, 2, 3, 4, 8, 12, 5]
             \<and> list_all (\<lambda>a. a \<in> set (areas h)) [[0, 1, 2, 3], [0, 4, 8, 12], [0, 1, 4, 5]])"
  by code_simp

text \<open>
  C3 (the code departs from the claim). On the same board, row 0 has exactly one cell
  (cell 0) whose candidates lie in \<open>S = {1}\<close>, a non-empty subset of \<open>{1..4}\<close> of size one;
  cell 1 of that row is not contained in \<open>S\<close>, and one call of \<open>reduce_options\<close> leaves
  the value 1 in it: \<open>S\<close> is not an entry of the subset table.
\<close>

theorem reduce_options_4x4_misses_subset:
  "(case board_4x4 of
      Inl e \<Rightarrow> False
    | Inr h \<Rightarrow> fst (dimensions h) = 4
             \<and> [0, 1, 2, 3] \<in> set (areas h)
             \<and> length [i \<leftarrow> [0, 1, 2, 3]. grid h ! i |\<subseteq>| {|1|}] = fcard {|1::int|}
             \<and> \<not> grid h ! 1 |\<subseteq>| {|1|}
             \<and> 1 |\<in>| grid (reduce_options h) ! 1
             \<and> list_all (\<lambda>(i, S). S \<noteq> {|1|}) (subsets h)
             \<and> reduce_options h = h)"
  by code_simp

text \<open>
  C1 (the code departs from the claim). For the live grid of a 2 x 2 solver and the
  unresolved cell 4 (row 1, column 0), the grid the trial for \<open>v = 1\<close> runs on has side 9
  and 81 cells, has the 27 areas of the default 9 x 9 grid (the live grid has 12), holds \<open>{1}\<close> at index 9 and
  still the full candidate set at index 4.
\<close>

theorem trial_grid_not_a_clone:
  "(case SudokuGrid_init 2 2 None of
      Inl e \<Rightarrow> False
    | Inr g \<Rightarrow>
        (case trial_grid g (4 div fst (dimensions g)) (4 mod fst (dimensions g)) 1 of
           Inl e \<Rightarrow> False
         | Inr t \<Rightarrow> dimensions g = (4, 4) \<and> dimensions t = (9, 9)
                  \<and> length (grid g) = 16 \<and> length (grid t) = 81
                  \<and> length (areas g) = 12 \<and> length (areas t) = 27
                  \<and> grid t ! 4 = {|1, 2, 3, 4|} \<and> grid t ! 9 = {|1|}
                  \<and> grid t ! 16 = {|1, 2, 3, 4, 5, 6, 7, 8, 9|}))"
  by (simp add: init_2_2 init_3_3 trial_grid_def copy_cells_ok set_values_def length_row_areas length_col_areas length_default_regions
      full_sets nth_append)

text \<open>
  C7. \<open>simplify\<close> is idempotent, for every grid: the grid it returns is left unchanged
  by \<open>reduce_options\<close>, and a second \<open>simplify\<close> returns it again.
\<close>

theorem simplify_idempotent:
  "simplify (simplify g) = simplify g \<and> reduce_options (simplify g) = simplify g"
  using reduce_options_simplify[of g] simplify_fixpoint[of "simplify g"] by simp


text \<open>
  C5 as stated fails: a grid whose candidate sets are all empty has initial sum 0, and
  \<open>simplify\<close> still makes one pass (the loop body runs before the test).
\<close>

theorem pass_bound_counterexample:
  "(case empty_cell_1x1 of
      Inl e \<Rightarrow> False
    | Inr h \<Rightarrow> options_sum h = 0 \<and> simplify_passes h = 1
             \<and> \<not> simplify_passes h \<le> options_sum h)"
  by code_simp

text \<open>
  C5, amended. For every grid, one call of \<open>reduce_options\<close> leaves every candidate set
  a subset of what it was (and the number of cells unchanged); the sum of the candidate-set
  sizes does not increase along any sequence of calls; and \<open>simplify\<close>, which is total,
  makes at most \<open>max 1 (initial sum)\<close> passes: at most the initial sum when that is
  positive, and exactly one when no cell has a candidate.
\<close>

theorem narrowing_and_pass_bound:
  "list_all2 (|\<subseteq>|) (grid (reduce_options g)) (grid g)
   \<and> options_sum ((reduce_options ^^ Suc k) g) \<le> options_sum ((reduce_options ^^ k) g)
   \<and> options_sum ((reduce_options ^^ k) g) \<le> options_sum g
   \<and> simplify_passes g \<le> max 1 (options_sum g)"
proof -
  have a: "list_all2 (|\<subseteq>|) (grid (reduce_options g)) (grid g)"
    using narrows_reduce_options[of g] by (simp add: narrows_def)
  have c: "options_sum ((reduce_options ^^ j) g) \<le> options_sum g" for j
  proof (induction j)
    case 0 show ?case by simp
  next
    case (Suc j)
    then show ?case using reduce_options_funpow_le[of j g] by (rule_tac order_trans)
  qed
  show ?thesis using a reduce_options_funpow_le[of k g] c[of k] simplify_passes_bound[of g] by blast
qed

text \<open>
  C10. If cell \<open>c\<close> of the live grid has no candidate, it has none after
  \<open>reduce_options\<close> and after \<open>simplify\<close>, the surviving set computed for it is empty,
  the loop guard "all cells are singletons" is false, and neither the loop of \<open>solve\<close>
  started at this grid nor \<open>solve\<close> itself returns a grid: the result is never
  \<open>Some (Inr g')\<close>.
\<close>

theorem empty_cell_never_returns:
  assumes "c < length (grid g)" and "grid g ! c = {||}"
  shows "grid (reduce_options g) ! c = {||}
       \<and> grid (simplify g) ! c = {||}
       \<and> good_set g c row col = Inr {||}
       \<and> \<not> list_all (\<lambda>b. b) (defined g)
       \<and> solve_loop g \<noteq> Some (Inr g')
       \<and> solve g \<noteq> Some (Inr g')"
proof -
  have a: "grid (reduce_options g) ! c = {||}"
    using narrows_keeps_empty[OF narrows_reduce_options assms] by simp
  have b: "c < length (grid (simplify g)) \<and> grid (simplify g) ! c = {||}"
    using narrows_keeps_empty[OF narrows_simplify assms] .
  have e: "solve_loop g \<noteq> Some (Inr g')"
    using solve_loop_empty[of g "Inr g'"] assms by blast
  have f: "solve g \<noteq> Some (Inr g')"
    unfolding solve_def using solve_loop_empty[of "simplify g" "Inr g'"] b by blast
  show ?thesis
    using a b e f good_set_empty[OF assms(2)] empty_not_all_defined[OF assms] by simp
qed


theorem empty_cell_never_returns_witness:
  "(case empty_cell_1x1 of
      Inl e \<Rightarrow> False
    | Inr h \<Rightarrow> 0 < length (grid h) \<and> grid h ! 0 = {||}
             \<and> grid (reduce_options h) ! 0 = {||}
             \<and> (\<forall>g'. solve h \<noteq> Some (Inr g')))"
  using empty_cell_never_returns[of 0 "\<lparr>dimensions = (1, 1), grid_values = [1], grid = [{||}],
                         areas = [[0], [0], [0]], subsets = [(1, {|9|})]\<rparr>"]
  by (simp add: empty_cell_1x1_eq)

text \<open>
  C8. For \<open>m, n \<ge> 1\<close> and every segment argument the constructor accepts (\<open>None\<close>, the
  empty list, or a list that passes the three assertions), the side is \<open>m * n\<close> and the
  areas are three families of \<open>side\<close> groups; each group has \<open>side\<close> distinct indices and
  each family on its own partitions \<open>0 .. side\<^sup>2 - 1\<close>. The first family is the rows (group
  \<open>i\<close> holds the cells \<open>k\<close> with \<open>k div side = i\<close>), the second the columns (group \<open>j\<close>
  holds the cells with \<open>k mod side = j\<close>). Without segments the third family is the blocks
  of \<open>m\<close> rows by \<open>n\<close> columns (group \<open>i * m + j\<close> holds the cells whose row lies in block
  row \<open>i\<close> and whose column lies in block column \<open>j\<close>); with segments it is the supplied
  list, each pair \<open>(r, c)\<close> turned into the index \<open>side * r + c\<close>.
\<close>

theorem areas_partition:
  assumes "1 \<le> m" and "1 \<le> n" and "SudokuGrid_init m n segments = Inr g"
  shows "fst (dimensions g) = nat (m * n)
       \<and> length (areas g) = 3 * nat (m * n)
       \<and> partitions_grid (nat (m * n)) (take (nat (m * n)) (areas g))
       \<and> partitions_grid (nat (m * n)) (take (nat (m * n)) (drop (nat (m * n)) (areas g)))
       \<and> partitions_grid (nat (m * n)) (drop (2 * nat (m * n)) (areas g))
       \<and> (\<forall>i<nat (m * n). set (areas g ! i)
              = {k. k < nat (m * n) * nat (m * n) \<and> k div nat (m * n) = i})
       \<and> (\<forall>j<nat (m * n). set (areas g ! (nat (m * n) + j))
              = {k. k < nat (m * n) * nat (m * n) \<and> k mod nat (m * n) = j})
       \<and> (segments = None \<or> segments = Some [] \<longrightarrow>
            (\<forall>i<nat n. \<forall>j<nat m. set (areas g ! (2 * nat (m * n) + (i * nat m + j)))
               = {k. k < nat (m * n) * nat (m * n)
                     \<and> k div nat (m * n) div nat m = i \<and> k mod nat (m * n) div nat n = j}))
       \<and> (\<forall>segs. segments = Some segs \<and> segs \<noteq> [] \<longrightarrow>
            drop (2 * nat (m * n)) (areas g)
              = map (map (\<lambda>x. nat (int (nat (m * n)) * fst x + snd x))) segs)"
proof -
  obtain rs where nn: "0 \<le> m * n"
    and g: "g = \<lparr>dimensions = (nat (m * n), nat (m * n)), grid_values = [1..m * n],
              grid = replicate (nat ((m * n) ^ 2)) (fset_of_list [1..m * n]),
              areas = row_areas (m * n) @ col_areas (m * n) @ rs,
              subsets = [(i, get_subset i). i \<leftarrow> [1..<2 ^ nat (m * n)]]\<rparr>"
    and rs: "rs = default_regions m n \<or> (\<exists>segs. segments = Some segs \<and> segment_regions (m * n) segs = Inr rs)"
    using init_fields[OF assms(3)] by blast
  define T where "T = nat (m * n)"
  have tot: "m * n = int T" using nn by (simp add: T_def)
  have prs: "partitions_grid T rs"
    using rs partitions_default_regions[OF assms(1,2)] partitions_segment_regions
    unfolding T_def by blast
  have lr: "length (row_areas (int T)) = T" and lc: "length (col_areas (int T)) = T"
    and lrs: "length rs = T"
    using prs by (simp_all add: length_row_areas length_col_areas partitions_grid_def)
  have a: "areas g = row_areas (int T) @ col_areas (int T) @ rs" by (subst g) (simp add: tot)
  have d: "fst (dimensions g) = T" by (subst g) (simp add: T_def)
  have fam: "take T (areas g) = row_areas (int T)"
    "take T (drop T (areas g)) = col_areas (int T)"
    "drop (2 * T) (areas g) = rs"
    unfolding a using lr lc by simp_all
  have part: "partitions_grid T (take T (areas g))"
    "partitions_grid T (take T (drop T (areas g)))" "partitions_grid T (drop (2 * T) (areas g))"
    unfolding fam using partitions_rows partitions_cols prs by simp_all
  have rows: "set (areas g ! i) = {k. k < T * T \<and> k div T = i}" if "i < T" for i
  proof -
    have "areas g ! i = row_areas (int T) ! i" unfolding a using that lr by (simp add: nth_append)
    then show ?thesis using row_area_set[OF that] by simp
  qed
  have cols: "set (areas g ! (T + j)) = {k. k < T * T \<and> k mod T = j}" if "j < T" for j
  proof -
    have "areas g ! (T + j) = col_areas (int T) ! j"
      unfolding a using that lr lc by (simp add: nth_append)
    then show ?thesis using col_area_set[OF that] by simp
  qed
  have nth_rs: "areas g ! (2 * T + b) = rs ! b" for b
    unfolding a using lr lc by (simp add: nth_append)
  have blocks: "set (areas g ! (2 * T + (i * nat m + j)))
               = {k. k < T * T \<and> k div T div nat m = i \<and> k mod T div nat n = j}"
    if "segments = None \<or> segments = Some []" "i < nat n" "j < nat m" for i j
  proof -
    have "rs = default_regions m n"
      using rs that(1) assms(1,2) by (auto simp: segment_regions_def split: if_splits)
    then have "areas g ! (2 * T + (i * nat m + j)) = default_regions m n ! (i * nat m + j)"
      using nth_rs by simp
    then show ?thesis
      using default_region_set[OF assms(1,2) that(2,3)] by (simp add: T_def)
  qed
  have segs: "drop (2 * T) (areas g) = map (map (\<lambda>x. nat (int T * fst x + snd x))) segs"
    if "segments = Some segs" "segs \<noteq> []" for segs
  proof -
    have "SudokuGrid_init m n (Some segs) = Inr g" using assms(3) that(1) by simp
    then have "segment_regions (m * n) segs = Inr (drop (2 * T) (areas g))"
      unfolding SudokuGrid_init_def Let_def using that(2) lr lc
      by (auto simp: tot split: sum.splits if_splits)
    then show ?thesis
      by (auto simp: segment_regions_def Let_def tot comp_def split: if_splits)
  qed
  have len: "length (areas g) = 3 * T" unfolding a using lr lc lrs by simp
  show ?thesis
    unfolding T_def[symmetric] using d len part rows cols blocks segs by blast
qed

theorem areas_partition_witness:
  "(1::int) \<le> 2
   \<and> (case SudokuGrid_init 2 2 (Some jigsaw_4x4) of
        Inl e \<Rightarrow> False
      | Inr g \<Rightarrow> partitions_grid 4 (take 4 (areas g))
               \<and> partitions_grid 4 (take 4 (drop 4 (areas g)))
               \<and> partitions_grid 4 (drop 8 (areas g))
               \<and> set (areas g ! 1) = {k. k < 16 \<and> k div 4 = 1}
               \<and> set (areas g ! 6) = {k. k < 16 \<and> k mod 4 = 2}
               \<and> drop 8 (areas g) = [[0, 1, 2, 4], [3, 7, 11, 6], [5, 8, 9, 12], [10, 13, 14, 15]])
   \<and> (case SudokuGrid_init 2 2 None of
        Inl e \<Rightarrow> False
      | Inr g \<Rightarrow> set (areas g ! 9) = {k. k < 16 \<and> k div 4 div 2 = 0 \<and> k mod 4 div 2 = 1}
               \<and> areas g ! 9 = [2, 3, 6, 7])"
proof -
  have ok: "(case SudokuGrid_init 2 2 (Some jigsaw_4x4) of
               Inl e \<Rightarrow> False
             | Inr g \<Rightarrow> drop 8 (areas g)
                        = [[0, 1, 2, 4], [3, 7, 11, 6], [5, 8, 9, 12], [10, 13, 14, 15]])"
    by code_simp
  then obtain g where g: "SudokuGrid_init 2 2 (Some jigsaw_4x4) = Inr g"
    by (cases "SudokuGrid_init 2 2 (Some jigsaw_4x4)") auto
  have ok2: "(case SudokuGrid_init 2 2 None of
               Inl e \<Rightarrow> False
             | Inr g \<Rightarrow> areas g ! 9 = [2, 3, 6, 7])"
    by code_simp
  then obtain h where h: "SudokuGrid_init 2 2 None = Inr h"
    by (cases "SudokuGrid_init 2 2 None") auto
  have p: "fst (dimensions g) = 4
       \<and> length (areas g) = 12
       \<and> partitions_grid 4 (take 4 (areas g))
       \<and> partitions_grid 4 (take 4 (drop 4 (areas g)))
       \<and> partitions_grid 4 (drop 8 (areas g))
       \<and> (\<forall>i<4. set (areas g ! i) = {k. k < 16 \<and> k div 4 = i})
       \<and> (\<forall>j<4. set (areas g ! (4 + j)) = {k. k < 16 \<and> k mod 4 = j})"
    using areas_partition[of 2 2 "Some jigsaw_4x4" g] g by simp
  have q: "\<forall>i<2. \<forall>j<2. set (areas h ! (8 + (i * 2 + j)))
               = {k. k < 16 \<and> k div 4 div 2 = i \<and> k mod 4 div 2 = j}"
    using areas_partition[of 2 2 None h] h by simp
  have c: "\<forall>j<4. set (areas g ! (4 + j)) = {k. k < 16 \<and> k mod 4 = j}" using p by simp
  have p1: "set (areas g ! 1) = {k. k < 16 \<and> k div 4 = 1}" using p by simp
  have p6: "set (areas g ! 6) = {k. k < 16 \<and> k mod 4 = 2}"
    using c[rule_format, of 2] by simp
  have q9: "set (areas h ! 9) = {k. k < 16 \<and> k div 4 div 2 = 0 \<and> k mod 4 div 2 = 1}"
    using q[rule_format, of 0 1] by simp
  show ?thesis using p p1 p6 q9 ok ok2 unfolding g h by simp
qed

text \<open>
  C6 as stated fails: \<open>validate_area\<close> compares the union of the candidates with the set
  of values for equality, so the one-cell grid whose cell holds \<open>{1, 2}\<close> is invalid
  although no value of \<open>1 .. side\<close> is missing and no two singletons agree.
\<close>

theorem validity_duality_counterexample:
  "(case two_candidates_1x1 of
      Inl e \<Rightarrow> False
    | Inr h \<Rightarrow> is_valid h = False
             \<and> \<not> list_ex (\<lambda>a. area_lacks_value h a \<or> area_repeats_single h a) (areas h))"
  by code_simp


text \<open>
  C6, amended. For every well-formed grid, \<open>is_valid\<close> is \<open>False\<close> if and only if some
  area lacks a value of \<open>1 .. side\<close> in the union of its candidate sets, or has two
  singleton cells with the same value, or has a cell with a candidate outside
  \<open>1 .. side\<close>; when all candidate sets are subsets of \<open>1 .. side\<close> the third case
  cannot occur and the equivalence is the one of the claim.
\<close>

theorem validity_duality:
  assumes "well_formed g"
  shows "(is_valid g = False \<longleftrightarrow>
            list_ex (\<lambda>a. area_lacks_value g a \<or> area_repeats_single g a
                         \<or> area_out_of_range g a) (areas g))
       \<and> (candidates_in_range g \<longrightarrow>
            (is_valid g = False \<longleftrightarrow>
               list_ex (\<lambda>a. area_lacks_value g a \<or> area_repeats_single g a) (areas g)))"
proof -
  have va: "validate_area g a \<longleftrightarrow>
              \<not> area_lacks_value g a \<and> \<not> area_out_of_range g a \<and> \<not> area_repeats_single g a"
    if "a \<in> set (areas g)" for a
    using validate_area_iff[of a g] well_formed_area[OF assms that] well_formed_values[OF assms]
    by blast
  have one: "is_valid g = False \<longleftrightarrow>
            list_ex (\<lambda>a. area_lacks_value g a \<or> area_repeats_single g a
                         \<or> area_out_of_range g a) (areas g)"
    unfolding is_valid_def list_all_iff list_ex_iff using va by blast
  have two: "list_ex (\<lambda>a. area_lacks_value g a \<or> area_repeats_single g a
                         \<or> area_out_of_range g a) (areas g)
             \<longleftrightarrow> list_ex (\<lambda>a. area_lacks_value g a \<or> area_repeats_single g a) (areas g)"
    if "candidates_in_range g"
    unfolding list_ex_iff using in_range_not_out[OF assms that] by blast
  show ?thesis using one two by simp
qed


theorem validity_duality_witness:
  "(case empty_cell_1x1 of
      Inl e \<Rightarrow> False
    | Inr h \<Rightarrow> well_formed h \<and> candidates_in_range h \<and> is_valid h = False
             \<and> list_ex (\<lambda>a. area_lacks_value h a \<or> area_repeats_single h a) (areas h))"
proof -
  have ok: "(case empty_cell_1x1 of
               Inl e \<Rightarrow> False
             | Inr h \<Rightarrow> well_formed h \<and> candidates_in_range h \<and> is_valid h = False)"
    by code_simp
  then obtain h where h: "empty_cell_1x1 = Inr h"
    by (auto split: sum.splits)
  have f: "well_formed h" "candidates_in_range h" "is_valid h = False"
    using ok unfolding h by simp_all
  show ?thesis unfolding h using validity_duality[OF f(1)] f by simp
qed

text \<open>
  C4 as stated fails: \<open>set_values\<close> stores the caller's set object and \<open>-=\<close> changes it
  in place. On \<open>SudokuGrid(1, 5)\<close> with \<open>{5}\<close> at cell 0 and one set \<open>{1, 2, 3, 4, 5}\<close>
  stored at cells 1 and 6, all candidate sets are subsets of \<open>1 .. 5\<close>; \<open>reduce_options\<close>
  removes 5 from cell 1 (row 0 has its 5) and with it from cell 6, although a completion
  of the grid has 5 at cell 6.
\<close>

theorem elimination_sound_counterexample:
  "(case shared_5x5 of
      Inl e \<Rightarrow> False
    | Inr s \<Rightarrow> well_formed (view s) \<and> candidates_in_range (view s)
             \<and> completion (view s) solution_5x5
             \<and> cell_refs s ! 1 = cell_refs s ! 6
             \<and> 5 |\<in>| grid (view s) ! 6
             \<and> 5 |\<notin>| grid (view (st_reduce_options s)) ! 6
             \<and> solution_5x5 ! 6 = 5)"
  by code_simp

text \<open>
  C4, amended. Elimination is sound when the cells hold pairwise distinct set objects.
  For such a well-formed grid whose candidate sets are subsets of \<open>1 .. side\<close>: if one
  call of \<open>reduce_options\<close> removes \<open>v\<close> from the candidates of cell \<open>c\<close>, then no
  completion of the grid as it stood before the call has \<open>v\<close> at \<open>c\<close>. The objects of
  the subset table may be shared with cells.
\<close>

theorem elimination_sound:
  assumes "separate s"
    and "well_formed (view s)" and "candidates_in_range (view s)"
    and "completion (view s) sol"
    and "c < length (cell_refs s)"
    and "v |\<in>| grid (view s) ! c" and "v |\<notin>| grid (view (st_reduce_options s)) ! c"
  shows "sol ! c \<noteq> v"
proof -
  have f: "fits (view s) sol" using assms(4) by (simp add: completion_def)
  have a: "\<forall>a\<in>set (st_areas s). length a = fst (st_dimensions s) \<and> distinct a
              \<and> (\<forall>i\<in>set a. i < length (cell_refs s)) \<and> inj_on (\<lambda>i. sol ! i) (set a)"
    using well_formed_area[OF assms(2)] completion_inj[OF assms(2,3,4)]
    by (simp add: view_fields)
  note r = st_reduce_options_fits[OF assms(1) f a]
  have "c < length (grid (view (st_reduce_options s)))"
    using r assms(5) by (simp add: view_fields)
  then have "sol ! c |\<in>| grid (view (st_reduce_options s)) ! c"
    using r by (simp add: fits_nth)
  then show ?thesis using assms(7) by auto
qed

theorem elimination_sound_witness:
  "(case separate_5x5 of
      Inl e \<Rightarrow> False
    | Inr s \<Rightarrow> separate s \<and> well_formed (view s) \<and> candidates_in_range (view s)
             \<and> completion (view s) solution_5x5
             \<and> 1 < length (cell_refs s) \<and> 5 |\<in>| grid (view s) ! 1
             \<and> 5 |\<notin>| grid (view (st_reduce_options s)) ! 1
             \<and> solution_5x5 ! 1 \<noteq> 5)"
proof -
  have ok: "(case separate_5x5 of
               Inl e \<Rightarrow> False
             | Inr s \<Rightarrow> separate s \<and> well_formed (view s) \<and> candidates_in_range (view s)
                      \<and> completion (view s) solution_5x5
                      \<and> 1 < length (cell_refs s) \<and> 5 |\<in>| grid (view s) ! 1
                      \<and> 5 |\<notin>| grid (view (st_reduce_options s)) ! 1)"
    by code_simp
  then obtain s where s: "separate_5x5 = Inr s" by (auto split: sum.splits)
  have f: "separate s" "well_formed (view s)" "candidates_in_range (view s)"
    "completion (view s) solution_5x5" "1 < length (cell_refs s)" "5 |\<in>| grid (view s) ! 1"
    "5 |\<notin>| grid (view (st_reduce_options s)) ! 1"
    using ok unfolding s by simp_all
  show ?thesis
    unfolding s using elimination_sound[OF f] f by simp
qed




end
